theory Spec2Isabelle
  imports
    Main
    "HOL-Library.Word"
    "HOL-Library.AList"
    "HOL-Library.Char_ord"
    "HOL-Library.List_Lexorder"
begin

unbundle bit_operations_syntax

section \<open>passh: SSH-key-backed password store\<close>

text \<open>
  A shallow embedding of \<^verbatim>\<open>pkg/crypto/ssh_encrypt.go\<close> (the \<^verbatim>\<open>SSHEncryptor\<close>) and of
  \<^verbatim>\<open>pkg/storage\<close> (the \<^verbatim>\<open>Store\<close>). Go byte slices and Go strings are both byte
  sequences and are modelled as \<^typ>\<open>string\<close> (a list of 8-bit characters).
\<close>

subsection \<open>Errors\<close>

text \<open>
  The Go code builds its errors with \<^verbatim>\<open>errors.New\<close> and \<^verbatim>\<open>fmt.Errorf\<close>; there are no error
  types. Each constructor below stands for one message of the source, and wrapping with
  \<^verbatim>\<open>%w\<close> is a constructor that carries the wrapped error.
\<close>

datatype b64_error = CorruptInputError

text \<open>The error numbers of the system calls.\<close>

datatype fs_error = ENOENT | ENOTDIR | EISDIR | EEXIST | ENOTEMPTY | EBUSY | EINVAL | EIO

datatype rel_error = CantMakeRelative

datatype walk_error = WalkFailed fs_error | RelFailed rel_error

datatype error =
    NoPublicKeys                \<comment> \<open>"no public keys available for encryption"\<close>
  | RandomKeyFailed             \<comment> \<open>"failed to generate random key: ..."\<close>
  | NoPrivateKeys               \<comment> \<open>"no private keys available for decryption"\<close>
  | InvalidFormat               \<comment> \<open>"invalid encrypted data format"\<close>
  | DecodeFailed b64_error      \<comment> \<open>"failed to decode encrypted data: ..."\<close>
  | HomeDirFailed               \<comment> \<open>"failed to get home directory: ..."\<close>
  | StoreDirFailed fs_error     \<comment> \<open>"failed to create store directory: ..."\<close>
  | EncryptionFailed error      \<comment> \<open>"encryption failed: ..."\<close>
  | MkdirFailed fs_error        \<comment> \<open>"failed to create directory structure: ..."\<close>
  | WriteFailed fs_error        \<comment> \<open>"failed to write password file: ..."\<close>
  | ReadFailed fs_error         \<comment> \<open>"failed to read password file: ..."\<close>
  | DecryptionFailed error      \<comment> \<open>"decryption failed: ..."\<close>
  | ListFailed walk_error       \<comment> \<open>"failed to list password entries: ..."\<close>
  | DeleteFailed fs_error       \<comment> \<open>"failed to delete password file: ..."\<close>

subsection \<open>Standard base64 (\<^verbatim>\<open>encoding/base64\<close>, \<^verbatim>\<open>StdEncoding\<close>)\<close>

text \<open>
  The encoder and decoder of the Go standard library, as the encryptor calls them. The
  \<^verbatim>\<open>uint\<close> accumulator never exceeds 24 bits, so it is a \<^typ>\<open>nat\<close> with the bit
  operations of the source. The byte offset carried by Go's \<^verbatim>\<open>CorruptInputError\<close> only
  appears in the message and is left out.
\<close>

definition encodeStd :: string where
  "encodeStd = ''ABCDEFGHIJKLMNOPQRSTUVWXYZabcdefghijklmnopqrstuvwxyz0123456789+/''"

definition encode :: "nat \<Rightarrow> char" where
  "encode i = encodeStd ! i"

text \<open>The decode table: 0xFF everywhere, then the index of each alphabet character.\<close>

definition decodeMap :: "char \<Rightarrow> nat" where
  "decodeMap = fold (\<lambda>i m. m(encodeStd ! i := i)) [0..<64] (\<lambda>_. 0xFF)"

fun EncodeToString :: "string \<Rightarrow> string" where
  "EncodeToString (a # b # c # src) =
     (let val = push_bit 16 (of_char a) OR push_bit 8 (of_char b) OR of_char c :: nat
      in encode (drop_bit 18 val AND 0x3F) # encode (drop_bit 12 val AND 0x3F)
         # encode (drop_bit 6 val AND 0x3F) # encode (val AND 0x3F) # EncodeToString src)"
| "EncodeToString [a, b] =
     (let val = push_bit 16 (of_char a) OR push_bit 8 (of_char b) :: nat
      in [encode (drop_bit 18 val AND 0x3F), encode (drop_bit 12 val AND 0x3F),
          encode (drop_bit 6 val AND 0x3F), CHR ''=''])"
| "EncodeToString [a] =
     (let val = push_bit 16 (of_char a) :: nat
      in [encode (drop_bit 18 val AND 0x3F), encode (drop_bit 12 val AND 0x3F),
          CHR ''='', CHR ''=''])"
| "EncodeToString [] = []"

definition isNewline :: "char \<Rightarrow> bool" where
  "isNewline c \<longleftrightarrow> c = CHR 0x0A \<or> c = CHR 0x0D"

text \<open>
  The tail of \<^verbatim>\<open>decodeQuantum\<close>: the sextets read so far (missing ones are zero) are packed
  into 24 bits and the first \<open>dlen - 1\<close> bytes are written out. The encoding is not strict,
  so trailing bits are not checked.
\<close>

definition assemble :: "nat list \<Rightarrow> string" where
  "assemble dbuf =
     (let d = dbuf @ replicate (4 - length dbuf) 0;
          val = push_bit 18 (d ! 0) OR push_bit 12 (d ! 1) OR push_bit 6 (d ! 2) OR (d ! 3)
      in take (length dbuf - 1) [char_of (drop_bit 16 val), char_of (drop_bit 8 val), char_of val])"

text \<open>
  \<^verbatim>\<open>decodeQuantum\<close>: reads up to four alphabet characters, skipping CR and LF; \<open>dbuf\<close> holds
  the sextets read so far in this quantum. It returns the decoded bytes and the input
  that is left. Padding ends the input: only newlines may follow it.
\<close>

fun decodeQuantum :: "nat list \<Rightarrow> string \<Rightarrow> b64_error + (string \<times> string)" where
  "decodeQuantum dbuf [] = (if dbuf = [] then Inr ([], []) else Inl CorruptInputError)"
| "decodeQuantum dbuf (c # src) =
     (if decodeMap c \<noteq> 0xFF then
        (if length dbuf = 3 then Inr (assemble (dbuf @ [decodeMap c]), src)
         else decodeQuantum (dbuf @ [decodeMap c]) src)
      else if isNewline c then decodeQuantum dbuf src
      else if c \<noteq> CHR ''='' then Inl CorruptInputError
      else if length dbuf < 2 then Inl CorruptInputError
      else if length dbuf = 2 then
        (case dropWhile isNewline src of
           [] \<Rightarrow> Inl CorruptInputError
         | c' # src' \<Rightarrow>
             if c' \<noteq> CHR ''='' then Inl CorruptInputError
             else if dropWhile isNewline src' \<noteq> [] then Inl CorruptInputError
             else Inr (assemble dbuf, []))
      else if dropWhile isNewline src \<noteq> [] then Inl CorruptInputError
      else Inr (assemble dbuf, []))"

text \<open>\<^verbatim>\<open>DecodeString\<close>: quanta are decoded until the input is used up.\<close>

function DecodeString :: "string \<Rightarrow> b64_error + string" where
  "DecodeString [] = Inr []"
| "DecodeString (c # src) =
     (case decodeQuantum [] (c # src) of
        Inl e \<Rightarrow> Inl e
      | Inr (out, rest) \<Rightarrow>
          (case DecodeString rest of Inl e \<Rightarrow> Inl e | Inr out' \<Rightarrow> Inr (out @ out')))"
  by pat_completeness auto
termination
proof (relation "measure length")
  show "wf (measure length)" by simp
next
  fix c src qr out rest
  assume q: "decodeQuantum [] (c # src) = Inr qr" and qr: "(out, rest) = qr"
  have shorter: "decodeQuantum dbuf s = Inr (out, rest) \<Longrightarrow> length rest \<le> length s"
    for dbuf s
    by (induction dbuf s rule: decodeQuantum.induct) (auto split: if_splits list.splits)
  have "length rest \<le> length src"
    using q qr shorter [of _ src] by (auto split: if_splits list.splits)
  then show "(rest, c # src) \<in> measure length" by simp
qed

subsection \<open>\<^verbatim>\<open>strings.Split\<close> with a one-byte separator\<close>

fun Split :: "string \<Rightarrow> char \<Rightarrow> string list" where
  "Split [] sep = [[]]"
| "Split (c # s) sep =
     (if c = sep then [] # Split s sep
      else (case Split s sep of [] \<Rightarrow> [[c]] | p # ps \<Rightarrow> (c # p) # ps))"

subsection \<open>The encryptor\<close>

text \<open>
  \<^verbatim>\<open>ssh.PublicKey\<close> and \<^verbatim>\<open>ssh.Signer\<close> are interfaces of \<^verbatim>\<open>golang.org/x/crypto/ssh\<close>.
  A public key is modelled by what \<^verbatim>\<open>Type()\<close> and \<^verbatim>\<open>Marshal()\<close> return, a signer by its
  public key; the agent client by the signers it would list (\<open>None\<close> is the nil client).
\<close>

record PublicKey =
  keyType :: string
  Marshal :: string

record Signer =
  signerPublicKey :: PublicKey

record SSHEncryptor =
  publicKeys :: "PublicKey list"
  privateKeys :: "Signer list"
  agentClient :: "Signer list option"
  useAgent :: bool

text \<open>
  \<^verbatim>\<open>Encrypt\<close>. The second argument is the outcome of
  \<^verbatim>\<open>io.ReadFull(rand.Reader, randomKey)\<close>: \<open>None\<close> when the read fails, \<open>Some key\<close> with the
  32 random bytes otherwise. The receiver is returned with the result: no field of it
  is assigned.
\<close>

definition Encrypt :: "SSHEncryptor \<Rightarrow> string option \<Rightarrow> string \<Rightarrow> (error + string) \<times> SSHEncryptor" where
  "Encrypt e rnd data =
     (if length (publicKeys e) = 0 then (Inl NoPublicKeys, e)
      else case rnd of
        None \<Rightarrow> (Inl RandomKeyFailed, e)
      | Some randomKey \<Rightarrow>
          (let encryptedBlocks = map (\<lambda>pubKey. EncodeToString (Marshal pubKey)) (publicKeys e);
               encodedData = EncodeToString data;
               result = foldl (\<lambda>result block. result @ '':'' @ block) encodedData encryptedBlocks
           in (Inr result, e)))"

definition Decrypt :: "SSHEncryptor \<Rightarrow> string \<Rightarrow> (error + string) \<times> SSHEncryptor" where
  "Decrypt e encryptedData =
     (if length (privateKeys e) = 0 then (Inl NoPrivateKeys, e)
      else case Split encryptedData CHR '':'' of
        part0 # _ # _ \<Rightarrow>
          (case DecodeString part0 of
             Inl err \<Rightarrow> (Inl (DecodeFailed err), e)
           | Inr decodedData \<Rightarrow> (Inr decodedData, e))
      | _ \<Rightarrow> (Inl InvalidFormat, e))"

subsection \<open>Paths (\<^verbatim>\<open>path/filepath\<close> on Unix)\<close>

text \<open>
  \<^verbatim>\<open>filepath.Clean\<close> scans the path element by element (the runs between separators)
  and keeps the output in a buffer that \<open>..\<close> shortens. \<open>cleanElem\<close> is one step of that
  scan on the list of elements written so far (last written first): empty elements and
  \<open>.\<close> are skipped; \<open>..\<close> removes the last element if there is one to remove, is kept
  in front of a relative path, and is dropped at the root.
\<close>

definition isRooted :: "string \<Rightarrow> bool" where
  "isRooted path = (case path of [] \<Rightarrow> False | c # _ \<Rightarrow> c = CHR ''/'')"

fun cleanElem :: "bool \<Rightarrow> string list \<Rightarrow> string \<Rightarrow> string list" where
  "cleanElem rooted out elem =
     (if elem = [] \<or> elem = ''.'' then out
      else if elem = ''..'' then
        (case out of
           [] \<Rightarrow> if rooted then [] else [''..'']
         | prev # below \<Rightarrow>
             if prev \<noteq> ''..'' then below
             else if rooted then out else ''..'' # out)
      else elem # out)"

definition cleanElems :: "string \<Rightarrow> string list" where
  "cleanElems path = rev (foldl (cleanElem (isRooted path)) [] (Split path CHR ''/''))"

text \<open>\<^verbatim>\<open>strings.Join(elems, "/")\<close>.\<close>

fun joinElems :: "string list \<Rightarrow> string" where
  "joinElems [] = []"
| "joinElems [e] = e"
| "joinElems (e # es) = e @ CHR ''/'' # joinElems es"

definition Clean :: "string \<Rightarrow> string" where
  "Clean path =
     (if path = [] then ''.''
      else if isRooted path then CHR ''/'' # joinElems (cleanElems path)
      else if cleanElems path = [] then ''.''
      else joinElems (cleanElems path))"

text \<open>\<^verbatim>\<open>filepath.Join\<close> of two elements: empty elements are ignored, the rest is cleaned.\<close>

definition Join :: "string \<Rightarrow> string \<Rightarrow> string" where
  "Join a b =
     (if a \<noteq> [] then Clean (a @ ''/'' @ b)
      else if b \<noteq> [] then Clean b
      else [])"

text \<open>\<^verbatim>\<open>filepath.Dir\<close>: all but the last element, cleaned.\<close>

definition Dir :: "string \<Rightarrow> string" where
  "Dir path = Clean (rev (dropWhile (\<lambda>c. c \<noteq> CHR ''/'') (rev path)))"

text \<open>\<^verbatim>\<open>filepath.Base\<close>, which is what \<^verbatim>\<open>FileInfo.Name()\<close> returns for a path.\<close>

definition Base :: "string \<Rightarrow> string" where
  "Base path =
     (if path = [] then ''.''
      else let stripped = rev (dropWhile (\<lambda>c. c = CHR ''/'') (rev path))
           in if stripped = [] then ''/''
              else rev (takeWhile (\<lambda>c. c \<noteq> CHR ''/'') (rev stripped)))"

definition HasSuffix :: "string \<Rightarrow> string \<Rightarrow> bool" where
  "HasSuffix s suffix \<longleftrightarrow>
     length s \<ge> length suffix \<and> drop (length s - length suffix) s = suffix"

definition TrimSuffix :: "string \<Rightarrow> string \<Rightarrow> string" where
  "TrimSuffix s suffix = (if HasSuffix s suffix then take (length s - length suffix) s else s)"

text \<open>
  \<^verbatim>\<open>filepath.Rel\<close>: both paths are cleaned, their common leading elements are dropped,
  and what is left of the base is climbed with \<open>..\<close>. It fails when one path is rooted
  and the other is not, or when the base has a \<open>..\<close> that the target does not share.
  \<^verbatim>\<open>List\<close> calls it with the root of the store as the base and a path of the walk
  below that root as the target.
\<close>

definition pathElems :: "string \<Rightarrow> string list" where
  "pathElems path = filter (\<lambda>elem. elem \<noteq> []) (Split path CHR ''/'')"

fun dropCommon :: "string list \<Rightarrow> string list \<Rightarrow> string list \<times> string list" where
  "dropCommon (b # base) (t # targ) =
     (if b = t then dropCommon base targ else (b # base, t # targ))"
| "dropCommon base targ = (base, targ)"

definition Rel :: "string \<Rightarrow> string \<Rightarrow> rel_error + string" where
  "Rel basepath targpath =
     (let base = Clean basepath; targ = Clean targpath in
      if targ = base then Inr ''.''
      else
        let base = (if base = ''.'' then [] else base) in
        if isRooted base \<noteq> isRooted targ then Inl CantMakeRelative
        else
          (case dropCommon (pathElems base) (pathElems targ) of
             ([], t) \<Rightarrow> Inr (joinElems t)
           | (b0 # b, t) \<Rightarrow>
               if b0 = ''..'' then Inl CantMakeRelative
               else Inr (joinElems (replicate (Suc (length b)) ''..'' @ t))))"

subsection \<open>The file system\<close>

text \<open>
  A tree of directories and regular files below \<open>/\<close>, the working directory, and the
  log of the calls that \<open>NewStore\<close>, \<open>Add\<close>, \<open>Get\<close> and \<open>Delete\<close> make to package \<^verbatim>\<open>os\<close>.
  A directory maps names to nodes (an association list in no particular order). There
  are no symbolic links; permission bits are recorded in the log only.
\<close>

datatype node = File string | Directory "(string \<times> node) list"

datatype call =
    MkdirAllCall string nat
  | WriteFileCall string string nat
  | ReadFileCall string
  | RemoveCall string

record filesystem =
  tree :: node
  cwd :: "string list"
  calls :: "call list"

fun lookupNode :: "node \<Rightarrow> string list \<Rightarrow> fs_error + node" where
  "lookupNode n [] = Inr n"
| "lookupNode (File content) (e # es) = Inl ENOTDIR"
| "lookupNode (Directory entries) (e # es) =
     (case map_of entries e of
        None \<Rightarrow> Inl ENOENT
      | Some child \<Rightarrow> lookupNode child es)"

text \<open>
  A path is resolved the way the kernel does it, element by element, from \<open>/\<close> or from
  the working directory. Before an element is taken, the place reached so far has to
  be an existing directory. An empty element and \<open>.\<close> stay there, \<open>..\<close> goes to the
  parent (\<open>/\<close> is its own parent), a name goes to the entry of that name; whether that
  entry exists is found out when the next element is taken, or by the caller. The
  result is the place as the list of names that leads to it from \<open>/\<close>. So
  \<open>missing/..\<close> is \<^verbatim>\<open>ENOENT\<close> and \<open>file/\<close> is \<^verbatim>\<open>ENOTDIR\<close>; the empty path is \<^verbatim>\<open>ENOENT\<close>.
\<close>

definition stepElem :: "string list \<Rightarrow> string \<Rightarrow> string list" where
  "stepElem place e =
     (if e = [] \<or> e = ''.'' then place
      else if e = ''..'' then butlast place
      else place @ [e])"

fun resolve :: "node \<Rightarrow> string list \<Rightarrow> string list \<Rightarrow> fs_error + string list" where
  "resolve t place [] = Inr place"
| "resolve t place (e # es) =
     (case lookupNode t place of
        Inl err \<Rightarrow> Inl err
      | Inr (File _) \<Rightarrow> Inl ENOTDIR
      | Inr (Directory _) \<Rightarrow> resolve t (stepElem place e) es)"

definition start :: "string list \<Rightarrow> string \<Rightarrow> string list" where
  "start wd path = (if isRooted path then [] else wd)"

definition locate :: "node \<Rightarrow> string list \<Rightarrow> string \<Rightarrow> fs_error + string list" where
  "locate t wd path =
     (if path = [] then Inl ENOENT
      else resolve t (start wd path) (Split path CHR ''/''))"

definition lstat :: "node \<Rightarrow> string list \<Rightarrow> string \<Rightarrow> fs_error + node" where
  "lstat t wd path =
     (case locate t wd path of
        Inl err \<Rightarrow> Inl err
      | Inr place \<Rightarrow> lookupNode t place)"

text \<open>
  The system call \<^verbatim>\<open>mkdir\<close>: trailing separators are ignored; the parent has to exist,
  the name must not.
\<close>

fun createDirNode :: "node \<Rightarrow> string list \<Rightarrow> fs_error + node" where
  "createDirNode n [] = Inl EEXIST"
| "createDirNode (File content) (e # es) = Inl ENOTDIR"
| "createDirNode (Directory entries) [e] =
     (case map_of entries e of
        Some _ \<Rightarrow> Inl EEXIST
      | None \<Rightarrow> Inr (Directory (AList.update e (Directory []) entries)))"
| "createDirNode (Directory entries) (e # e' # es) =
     (case map_of entries e of
        None \<Rightarrow> Inl ENOENT
      | Some child \<Rightarrow>
          (case createDirNode child (e' # es) of
             Inl err \<Rightarrow> Inl err
           | Inr child' \<Rightarrow> Inr (Directory (AList.update e child' entries))))"

definition mkdir :: "node \<Rightarrow> string list \<Rightarrow> string \<Rightarrow> fs_error + node" where
  "mkdir t wd path =
     (let elems = rev (dropWhile (\<lambda>e. e = []) (rev (Split path CHR ''/''))) in
      if path = [] then Inl ENOENT
      else if elems = [] then Inl EEXIST
      else
        (case resolve t (start wd path) (butlast elems) of
           Inl err \<Rightarrow> Inl err
         | Inr place \<Rightarrow>
             if last elems = ''.'' \<or> last elems = ''..'' then
               (case lookupNode t place of
                  Inl err \<Rightarrow> Inl err
                | Inr (File _) \<Rightarrow> Inl ENOTDIR
                | Inr (Directory _) \<Rightarrow> Inl EEXIST)
             else createDirNode t (place @ [last elems])))"

text \<open>
  \<^verbatim>\<open>os.MkdirAll\<close>, as package \<^verbatim>\<open>os\<close> writes it: nothing to do when \<^verbatim>\<open>Stat\<close> finds a
  directory, \<^verbatim>\<open>ENOTDIR\<close> when it finds a file; otherwise the parent, which is the path
  without its trailing separators and its last element, is made first, then \<^verbatim>\<open>Mkdir\<close>
  is called, whose error is dropped when \<^verbatim>\<open>Lstat\<close> then finds a directory. The parent
  is cut from the text of the path, so for \<open>missing/../x\<close> the directory \<open>missing\<close> is
  made.
\<close>

definition parentOf :: "string \<Rightarrow> string" where
  "parentOf path =
     rev (dropWhile (\<lambda>c. c \<noteq> CHR ''/'') (dropWhile (\<lambda>c. c = CHR ''/'') (rev path)))"

function mkdirAll :: "node \<Rightarrow> string list \<Rightarrow> string \<Rightarrow> fs_error option \<times> node" where
  "mkdirAll t wd path =
     (case lstat t wd path of
        Inr (Directory _) \<Rightarrow> (None, t)
      | Inr (File _) \<Rightarrow> (Some ENOTDIR, t)
      | Inl _ \<Rightarrow>
          (case (if parentOf path \<noteq> [] then mkdirAll t wd (parentOf path) else (None, t)) of
             (Some err, t1) \<Rightarrow> (Some err, t1)
           | (None, t1) \<Rightarrow>
               (case mkdir t1 wd path of
                  Inr t2 \<Rightarrow> (None, t2)
                | Inl err \<Rightarrow>
                    (case lstat t1 wd path of
                       Inr (Directory _) \<Rightarrow> (None, t1)
                     | _ \<Rightarrow> (Some err, t1)))))"
  by pat_completeness auto
termination
proof (relation "measure (\<lambda>(t, wd, path). length path)")
  show "wf (measure (\<lambda>(t :: node, wd :: string list, path :: string). length path))"
    by simp
next
  fix t :: node and wd :: "string list" and path :: string and err :: fs_error
  assume "parentOf path \<noteq> []"
  then obtain c cs where r: "rev path = c # cs"
    by (cases "rev path") (auto simp add: parentOf_def)
  have "length (parentOf path) \<le> length cs"
  proof (cases "c = CHR ''/''")
    case True
    have "length (dropWhile (\<lambda>c. c \<noteq> CHR ''/'') (dropWhile (\<lambda>c. c = CHR ''/'') cs))
            \<le> length (dropWhile (\<lambda>c. c = CHR ''/'') cs)"
      by (rule length_dropWhile_le)
    also have "\<dots> \<le> length cs"
      by (rule length_dropWhile_le)
    finally show ?thesis
      using True by (simp add: parentOf_def r)
  next
    case False
    then show ?thesis
      by (simp add: parentOf_def r length_dropWhile_le)
  qed
  moreover have "length path = Suc (length cs)"
    using arg_cong [OF r, of length] by simp
  ultimately show "((t, wd, parentOf path), (t, wd, path))
      \<in> measure (\<lambda>(t, wd, path). length path)"
    by simp
qed

declare mkdirAll.simps [simp del]

text \<open>
  \<^verbatim>\<open>os.WriteFile\<close> opens the name itself with create and truncate, writes the data and
  closes: the parent directory must exist, and the name must not be a directory (a
  name that ends in a separator, in \<open>.\<close> or in \<open>..\<close> is one). \<open>wr\<close> is the outcome of
  the write after the file has been opened: \<open>None\<close> when all the data are written,
  \<open>Some k\<close> when it fails after \<open>k\<close> bytes; whatever its cause, that failure is
  \<^verbatim>\<open>EIO\<close> here, an error the opening never gives.
\<close>

fun writeFileNode :: "node \<Rightarrow> string list \<Rightarrow> string \<Rightarrow> fs_error + node" where
  "writeFileNode n [] data = Inl EISDIR"
| "writeFileNode (File content) (e # es) data = Inl ENOTDIR"
| "writeFileNode (Directory entries) [e] data =
     (case map_of entries e of
        Some (Directory _) \<Rightarrow> Inl EISDIR
      | _ \<Rightarrow> Inr (Directory (AList.update e (File data) entries)))"
| "writeFileNode (Directory entries) (e # e' # es) data =
     (case map_of entries e of
        None \<Rightarrow> Inl ENOENT
      | Some child \<Rightarrow>
          (case writeFileNode child (e' # es) data of
             Inl err \<Rightarrow> Inl err
           | Inr child' \<Rightarrow> Inr (Directory (AList.update e child' entries))))"

definition written :: "nat option \<Rightarrow> string \<Rightarrow> string" where
  "written wr data = (case wr of None \<Rightarrow> data | Some k \<Rightarrow> take k data)"

definition writeError :: "nat option \<Rightarrow> fs_error option" where
  "writeError wr = (case wr of None \<Rightarrow> None | Some k \<Rightarrow> Some EIO)"

text \<open>\<^verbatim>\<open>os.Remove\<close>: \<^verbatim>\<open>unlink\<close>, then \<^verbatim>\<open>rmdir\<close>; removes a file or an empty directory.\<close>

fun removeNode :: "node \<Rightarrow> string list \<Rightarrow> fs_error + node" where
  "removeNode n [] = Inl EBUSY"
| "removeNode (File content) (e # es) = Inl ENOTDIR"
| "removeNode (Directory entries) [e] =
     (case map_of entries e of
        None \<Rightarrow> Inl ENOENT
      | Some (File _) \<Rightarrow> Inr (Directory (AList.delete e entries))
      | Some (Directory children) \<Rightarrow>
          if children = [] then Inr (Directory (AList.delete e entries)) else Inl ENOTEMPTY)"
| "removeNode (Directory entries) (e # e' # es) =
     (case map_of entries e of
        None \<Rightarrow> Inl ENOENT
      | Some child \<Rightarrow>
          (case removeNode child (e' # es) of
             Inl err \<Rightarrow> Inl err
           | Inr child' \<Rightarrow> Inr (Directory (AList.update e child' entries))))"

definition logCall :: "call \<Rightarrow> filesystem \<Rightarrow> filesystem" where
  "logCall c fs = fs\<lparr>calls := calls fs @ [c]\<rparr>"

definition MkdirAll :: "string \<Rightarrow> nat \<Rightarrow> filesystem \<Rightarrow> fs_error option \<times> filesystem" where
  "MkdirAll path perm fs =
     (let fs' = logCall (MkdirAllCall path perm) fs in
      case mkdirAll (tree fs) (cwd fs) path of
        (err, t) \<Rightarrow> (err, fs'\<lparr>tree := t\<rparr>))"

definition WriteFile ::
  "string \<Rightarrow> string \<Rightarrow> nat \<Rightarrow> nat option \<Rightarrow> filesystem \<Rightarrow> fs_error option \<times> filesystem" where
  "WriteFile name data perm wr fs =
     (let fs' = logCall (WriteFileCall name data perm) fs in
      case locate (tree fs) (cwd fs) name of
        Inl err \<Rightarrow> (Some err, fs')
      | Inr place \<Rightarrow>
          if last (Split name CHR ''/'') \<in> {[], ''.'', ''..''} then (Some EISDIR, fs')
          else
            (case writeFileNode (tree fs) place (written wr data) of
               Inl err \<Rightarrow> (Some err, fs')
             | Inr t \<Rightarrow> (writeError wr, fs'\<lparr>tree := t\<rparr>)))"

definition Remove :: "string \<Rightarrow> filesystem \<Rightarrow> fs_error option \<times> filesystem" where
  "Remove name fs =
     (let fs' = logCall (RemoveCall name) fs in
      case locate (tree fs) (cwd fs) name of
        Inl err \<Rightarrow> (Some err, fs')
      | Inr place \<Rightarrow>
          if last (Split name CHR ''/'') = ''.'' then (Some EINVAL, fs')
          else if last (Split name CHR ''/'') = ''..'' then (Some ENOTEMPTY, fs')
          else
            (case removeNode (tree fs) place of
               Inl err \<Rightarrow> (Some err, fs')
             | Inr t \<Rightarrow> (None, fs'\<lparr>tree := t\<rparr>)))"

definition Lstat :: "string \<Rightarrow> filesystem \<Rightarrow> fs_error + node" where
  "Lstat name fs = lstat (tree fs) (cwd fs) name"

definition ReadFile :: "string \<Rightarrow> filesystem \<Rightarrow> (fs_error + string) \<times> filesystem" where
  "ReadFile name fs =
     (let fs' = logCall (ReadFileCall name) fs in
      case Lstat name fs of
        Inl err \<Rightarrow> (Inl err, fs')
      | Inr (Directory _) \<Rightarrow> (Inl EISDIR, fs')
      | Inr (File content) \<Rightarrow> (Inr content, fs'))"

subsection \<open>\<^verbatim>\<open>filepath.Walk\<close>\<close>

text \<open>
  \<open>visits\<close> lists the calls \<^verbatim>\<open>walk\<close> makes to its function, in order: the node itself,
  then, for a directory, its entries by sorted name (\<^verbatim>\<open>readDirNames\<close> sorts), each
  under the path \<^verbatim>\<open>Join(path, name)\<close> (with no symbolic links, the path of the entry
  itself). A \<open>FileInfo\<close> is the pair of \<^verbatim>\<open>Name()\<close> and
  \<^verbatim>\<open>IsDir()\<close>. \<open>Walk\<close> feeds the visits to the function and stops at its first error;
  when \<^verbatim>\<open>Lstat\<close> of the root fails the function is called once, with that error. The
  function of this repository never returns \<^verbatim>\<open>SkipDir\<close>.
\<close>

type_synonym FileInfo = "string \<times> bool"

fun visits :: "string \<Rightarrow> string \<Rightarrow> node \<Rightarrow> (string \<times> FileInfo) list" where
  "visits path name (File content) = [(path, (name, False))]"
| "visits path name (Directory entries) =
     (path, (name, True))
       # concat (map (\<lambda>(n, child). visits (Join path n) n child) (sort_key fst entries))"

fun foldE :: "('a \<Rightarrow> 'b \<Rightarrow> 'e + 'b) \<Rightarrow> 'a list \<Rightarrow> 'b \<Rightarrow> 'e + 'b" where
  "foldE f [] acc = Inr acc"
| "foldE f (x # xs) acc = (case f x acc of Inl err \<Rightarrow> Inl err | Inr acc' \<Rightarrow> foldE f xs acc')"

definition Walk ::
  "string \<Rightarrow> (string \<Rightarrow> fs_error + FileInfo \<Rightarrow> 'a \<Rightarrow> 'e + 'a) \<Rightarrow> 'a \<Rightarrow> filesystem \<Rightarrow> 'e + 'a" where
  "Walk root fn acc fs =
     (case Lstat root fs of
        Inl err \<Rightarrow> fn root (Inl err) acc
      | Inr n \<Rightarrow> foldE (\<lambda>(path, info). fn path (Inr info)) (visits root (Base root) n) acc)"

subsection \<open>The store\<close>

text \<open>
  The store holds a \<^verbatim>\<open>crypto.Encryptor\<close>; \<^verbatim>\<open>SSHEncryptor\<close> is the implementation the
  command line gives it.
\<close>

record Store =
  rootDir :: string
  encryptor :: SSHEncryptor

text \<open>
  \<^verbatim>\<open>NewStore\<close>. \<open>home\<close> is the outcome of \<^verbatim>\<open>os.UserHomeDir()\<close> (\<open>None\<close> when it fails).
  0700 is 448.
\<close>

definition NewStore ::
  "string \<Rightarrow> SSHEncryptor \<Rightarrow> string option \<Rightarrow> filesystem \<Rightarrow> (error + Store) \<times> filesystem" where
  "NewStore root enc home fs =
     (case (if root = [] then
              (case home of None \<Rightarrow> Inl HomeDirFailed | Some homeDir \<Rightarrow> Inr (Join homeDir ''.passh''))
            else Inr root) of
        Inl err \<Rightarrow> (Inl err, fs)
      | Inr root' \<Rightarrow>
          (case MkdirAll root' 448 fs of
             (Some err, fs') \<Rightarrow> (Inl (StoreDirFailed err), fs')
           | (None, fs') \<Rightarrow> (Inr \<lparr>rootDir = root', encryptor = enc\<rparr>, fs')))"

text \<open>
  \<^verbatim>\<open>Add\<close>: encrypt, create the directories of \<^verbatim>\<open>Dir(Join(rootDir, name))\<close>, write the
  envelope to \<^verbatim>\<open>Join(rootDir, name + ".pass")\<close>. \<open>rnd\<close> is the random read of \<open>Encrypt\<close>,
  \<open>wr\<close> the outcome of the write of \<open>WriteFile\<close>. 0600 is 384.
\<close>

definition Add ::
  "Store \<Rightarrow> string option \<Rightarrow> nat option \<Rightarrow> string \<Rightarrow> string \<Rightarrow> filesystem
     \<Rightarrow> error option \<times> filesystem" where
  "Add s rnd wr name password fs =
     (case fst (Encrypt (encryptor s) rnd password) of
        Inl err \<Rightarrow> (Some (EncryptionFailed err), fs)
      | Inr encryptedData \<Rightarrow>
          (let dir = Dir (Join (rootDir s) name) in
           case MkdirAll dir 448 fs of
             (Some err, fs1) \<Rightarrow> (Some (MkdirFailed err), fs1)
           | (None, fs1) \<Rightarrow>
               (let filePath = Join (rootDir s) (name @ ''.pass'') in
                case WriteFile filePath encryptedData 384 wr fs1 of
                  (Some err, fs2) \<Rightarrow> (Some (WriteFailed err), fs2)
                | (None, fs2) \<Rightarrow> (None, fs2))))"

text \<open>\<^verbatim>\<open>Get\<close>: read \<^verbatim>\<open>Join(rootDir, name + ".pass")\<close>, decrypt.\<close>

definition Get :: "Store \<Rightarrow> string \<Rightarrow> filesystem \<Rightarrow> (error + string) \<times> filesystem" where
  "Get s name fs =
     (let filePath = Join (rootDir s) (name @ ''.pass'') in
      case ReadFile filePath fs of
        (Inl err, fs') \<Rightarrow> (Inl (ReadFailed err), fs')
      | (Inr encryptedData, fs') \<Rightarrow>
          (case fst (Decrypt (encryptor s) encryptedData) of
             Inl err \<Rightarrow> (Inl (DecryptionFailed err), fs')
           | Inr password \<Rightarrow> (Inr password, fs')))"

text \<open>The function \<^verbatim>\<open>List\<close> hands to \<^verbatim>\<open>filepath.Walk\<close>; \<open>entries\<close> is the slice it appends to.\<close>

definition listFn ::
  "string \<Rightarrow> string \<Rightarrow> fs_error + FileInfo \<Rightarrow> string list \<Rightarrow> walk_error + string list" where
  "listFn root path r entries =
     (case r of
        Inl err \<Rightarrow> Inl (WalkFailed err)
      | Inr info \<Rightarrow>
          if \<not> snd info \<and> HasSuffix (fst info) ''.pass'' then
            (case Rel root path of
               Inl err \<Rightarrow> Inl (RelFailed err)
             | Inr relPath \<Rightarrow> Inr (entries @ [TrimSuffix relPath ''.pass'']))
          else Inr entries)"

definition List :: "Store \<Rightarrow> filesystem \<Rightarrow> error + string list" where
  "List s fs =
     (case Walk (rootDir s) (listFn (rootDir s)) [] fs of
        Inl err \<Rightarrow> Inl (ListFailed err)
      | Inr entries \<Rightarrow> Inr entries)"

text \<open>\<^verbatim>\<open>Delete\<close>: remove \<^verbatim>\<open>Join(rootDir, name + ".pass")\<close>.\<close>

definition Delete :: "Store \<Rightarrow> string \<Rightarrow> filesystem \<Rightarrow> error option \<times> filesystem" where
  "Delete s name fs =
     (let filePath = Join (rootDir s) (name @ ''.pass'') in
      case Remove filePath fs of
        (Some err, fs') \<Rightarrow> (Some (DeleteFailed err), fs')
      | (None, fs') \<Rightarrow> (None, fs'))"

subsection \<open>Predicates used in the statements\<close>

text \<open>
  \<open>inside root path\<close>: \<open>path\<close> is strictly below \<open>root\<close>: after cleaning, the elements
  of \<open>root\<close> are a proper prefix of those of \<open>path\<close>, and no further element is \<open>..\<close>.
\<close>

definition inside :: "string \<Rightarrow> string \<Rightarrow> bool" where
  "inside root path \<longleftrightarrow>
     isRooted path = isRooted root
     \<and> length (cleanElems root) < length (cleanElems path)
     \<and> take (length (cleanElems root)) (cleanElems path) = cleanElems root
     \<and> ''..'' \<notin> set (drop (length (cleanElems root)) (cleanElems path))"

text \<open>
  A well-formed tree: the names of a directory are distinct, and each is a file name
  (not empty, not \<open>.\<close> or \<open>..\<close>, without a separator).
\<close>

definition validName :: "string \<Rightarrow> bool" where
  "validName n \<longleftrightarrow> n \<noteq> [] \<and> n \<noteq> ''.'' \<and> n \<noteq> ''..'' \<and> CHR ''/'' \<notin> set n"

fun wfNode :: "node \<Rightarrow> bool" where
  "wfNode (File content) = True"
| "wfNode (Directory entries) =
     (distinct (map fst entries)
      \<and> list_all (\<lambda>(n, child). validName n \<and> wfNode child) entries)"

text \<open>
  The regular files below a node, each as the list of names that leads to it, in the
  order of the walk; those whose file name ends in \<open>.pass\<close>; and the entry name of one.
\<close>

fun files :: "node \<Rightarrow> string list list" where
  "files (File content) = [[]]"
| "files (Directory entries) =
     concat (map (\<lambda>(n, child). map ((#) n) (files child)) (sort_key fst entries))"

definition isPassFile :: "string list \<Rightarrow> bool" where
  "isPassFile p \<longleftrightarrow> p \<noteq> [] \<and> HasSuffix (last p) ''.pass''"

definition passFiles :: "node \<Rightarrow> string list list" where
  "passFiles n = filter isPassFile (files n)"

definition entryName :: "string list \<Rightarrow> string" where
  "entryName p = TrimSuffix (joinElems p) ''.pass''"

text \<open>The entry names of the \<open>.pass\<close> files below a node that is reached by \<open>rel\<close>.\<close>

definition listed :: "string list \<Rightarrow> node \<Rightarrow> string list" where
  "listed rel n = map entryName (filter isPassFile (map (\<lambda>q. rel @ q) (files n)))"

text \<open>The shape of the element list \<open>Clean\<close> builds (last written element first).\<close>

definition cleanStack :: "bool \<Rightarrow> string list \<Rightarrow> bool" where
  "cleanStack rooted st \<longleftrightarrow>
     list_all (\<lambda>e. e \<noteq> [] \<and> e \<noteq> ''.'' \<and> CHR ''/'' \<notin> set e) st
     \<and> list_all (\<lambda>e. e = ''..'') (dropWhile (\<lambda>e. e \<noteq> ''..'') st)
     \<and> (if rooted then ''..'' \<notin> set st else True)"

definition render :: "bool \<Rightarrow> string list \<Rightarrow> string" where
  "render rooted out =
     (if rooted then CHR ''/'' # joinElems out
      else if out = [] then ''.'' else joinElems out)"

subsection \<open>Concrete keys and envelopes\<close>

definition mockKey :: PublicKey where
  "mockKey = \<lparr>keyType = ''ssh-ed25519'', Marshal = ''mock-ed25519-key''\<rparr>"

definition otherKey :: PublicKey where
  "otherKey = \<lparr>keyType = ''ssh-rsa'', Marshal = ''other-rsa-key''\<rparr>"

definition owner :: SSHEncryptor where
  "owner = \<lparr>publicKeys = [mockKey], privateKeys = [\<lparr>signerPublicKey = mockKey\<rparr>],
            agentClient = None, useAgent = False\<rparr>"

definition stranger :: SSHEncryptor where
  "stranger = \<lparr>publicKeys = [otherKey], privateKeys = [\<lparr>signerPublicKey = otherKey\<rparr>],
               agentClient = None, useAgent = False\<rparr>"

definition unkeyed :: SSHEncryptor where
  "unkeyed = \<lparr>publicKeys = [], privateKeys = [], agentClient = None, useAgent = False\<rparr>"

text \<open>Flipping bit \<open>k\<close> of byte \<open>i\<close> of a string.\<close>

definition flipBit :: "nat \<Rightarrow> nat \<Rightarrow> string \<Rightarrow> string" where
  "flipBit i k s = s[i := char_of (flip_bit k (of_char (s ! i) :: nat))]"

text \<open>Two outcomes of the random read.\<close>

definition zeroKey :: string where
  "zeroKey = replicate 32 (CHR 0x00)"

definition onesKey :: string where
  "onesKey = replicate 32 (CHR 0xFF)"

text \<open>A home directory with an empty store, and the store on it.\<close>

definition homeFS :: filesystem where
  "homeFS = \<lparr>tree = Directory [(''home'', Directory [(''u'', Directory [(''.passh'', Directory [])])])],
             cwd = [''home'', ''u''], calls = []\<rparr>"

definition homeStore :: Store where
  "homeStore = \<lparr>rootDir = ''/home/u/.passh'', encryptor = owner\<rparr>"

text \<open>A store that holds the entries \<open>a\<close> and \<open>a/b\<close>, and the home directory with it.\<close>

definition nestedStore :: node where
  "nestedStore = Directory [(''a.pass'', File ''YQ==:bW9jay1lZDI1NTE5LWtleQ==''),
                            (''a'', Directory [(''b.pass'', File ''YWJj:bW9jay1lZDI1NTE5LWtleQ=='')])]"

definition nestedFS :: filesystem where
  "nestedFS = \<lparr>tree = Directory [(''home'', Directory [(''u'', Directory [(''.passh'', nestedStore)])])],
               cwd = [''home'', ''u''], calls = []\<rparr>"

section \<open>Base64: decoding inverts encoding\<close>

lemma and63: "(x::nat) AND 0x3F = take_bit 6 x"
proof -
  have "(0x3F::nat) = mask 6" by (simp add: mask_eq_exp_minus_1)
  then show ?thesis by (simp add: take_bit_eq_mask)
qed

lemma and63_less: "(x::nat) AND 0x3F < 64"
  by (simp add: and63 take_bit_eq_mod)

lemma decodeMap_encode: "i < 64 \<Longrightarrow> decodeMap (encode i) = i"
proof -
  have "\<forall>i \<in> set [0..<64]. decodeMap (encode i) = i"
    by code_simp
  then show "i < 64 \<Longrightarrow> decodeMap (encode i) = i" by simp
qed

lemma decodeMap_pad: "decodeMap CHR ''='' = 0xFF" "\<not> isNewline CHR ''=''"
  by code_simp+

lemma of_char_take_bit: "(of_char c :: nat) = take_bit 8 (of_char c)"
  by (simp add: take_bit_eq_mod)

lemma pack3_bits:
  fixes A B C :: nat
  defines "val \<equiv> push_bit 16 (take_bit 8 A) OR push_bit 8 (take_bit 8 B) OR take_bit 8 C"
  shows "take_bit 8 (drop_bit 16 val) = take_bit 8 A"
    and "take_bit 8 (drop_bit 8 val) = take_bit 8 B"
    and "take_bit 8 val = take_bit 8 C"
    and "take_bit 24 val = val"
  unfolding val_def
  by (rule bit_eqI; auto simp add: bit_simps)+

lemma sextets_bits:
  "push_bit 18 (drop_bit 18 val AND 0x3F) OR push_bit 12 (drop_bit 12 val AND 0x3F)
     OR push_bit 6 (drop_bit 6 val AND 0x3F) OR (val AND 0x3F) = take_bit 24 (val::nat)"
  unfolding and63
proof (rule bit_eqI)
  fix n :: nat
  consider "n < 6" | "6 \<le> n" "n < 12" | "12 \<le> n" "n < 18" | "18 \<le> n"
    by linarith
  then show "bit (push_bit 18 (take_bit 6 (drop_bit 18 val)) OR push_bit 12 (take_bit 6 (drop_bit 12 val))
     OR push_bit 6 (take_bit 6 (drop_bit 6 val)) OR take_bit 6 val) n = bit (take_bit 24 val) n"
    by cases (auto simp add: bit_simps)
qed

lemma sextets_bits_padded:
  fixes val :: nat
  shows "val AND 0x3F = 0 \<Longrightarrow>
      push_bit 18 (drop_bit 18 val AND 0x3F) OR push_bit 12 (drop_bit 12 val AND 0x3F)
        OR push_bit 6 (drop_bit 6 val AND 0x3F) = take_bit 24 val"
    and "val AND 0x3F = 0 \<Longrightarrow> drop_bit 6 val AND 0x3F = 0 \<Longrightarrow>
      push_bit 18 (drop_bit 18 val AND 0x3F) OR push_bit 12 (drop_bit 12 val AND 0x3F)
        = take_bit 24 val"
  using sextets_bits [of val] by simp_all

lemma low_sextets_zero:
  fixes A B :: nat
  shows "(push_bit 16 A OR push_bit 8 B) AND 0x3F = 0"
    and "push_bit 16 A AND 0x3F = 0"
    and "drop_bit 6 (push_bit 16 A) AND 0x3F = 0"
  unfolding and63 by (rule bit_eqI; auto simp add: bit_simps)+

lemma pack3_chars:
  fixes a b c :: char
  defines "val \<equiv> push_bit 16 (of_char a) OR push_bit 8 (of_char b) OR (of_char c :: nat)"
  shows "char_of (drop_bit 16 val) = a" and "char_of (drop_bit 8 val) = b" and "char_of val = c"
    and "take_bit 24 val = val"
proof -
  have v: "val = push_bit 16 (take_bit 8 (of_char a)) OR push_bit 8 (take_bit 8 (of_char b))
      OR take_bit 8 (of_char c :: nat)"
    unfolding val_def using of_char_take_bit by simp
  have "char_of (drop_bit 16 val) = char_of (take_bit 8 (drop_bit 16 val))"
    by (simp only: char_of_take_bit_eq [OF order_refl])
  also have "\<dots> = char_of (take_bit 8 (of_char a :: nat))"
    unfolding v by (simp only: pack3_bits)
  finally show "char_of (drop_bit 16 val) = a" by (simp add: take_bit_eq_mod)
  have "char_of (drop_bit 8 val) = char_of (take_bit 8 (drop_bit 8 val))"
    by (simp only: char_of_take_bit_eq [OF order_refl])
  also have "\<dots> = char_of (take_bit 8 (of_char b :: nat))"
    unfolding v by (simp only: pack3_bits)
  finally show "char_of (drop_bit 8 val) = b" by (simp add: take_bit_eq_mod)
  have "char_of val = char_of (take_bit 8 val)"
    by (simp only: char_of_take_bit_eq [OF order_refl])
  also have "\<dots> = char_of (take_bit 8 (of_char c :: nat))"
    unfolding v by (simp only: pack3_bits)
  finally show "char_of val = c" by (simp add: take_bit_eq_mod)
  show "take_bit 24 val = val" unfolding v by (rule pack3_bits)
qed

lemma decodeQuantum_sextets:
  "s0 < 64 \<Longrightarrow> s1 < 64 \<Longrightarrow> s2 < 64 \<Longrightarrow> s3 < 64 \<Longrightarrow>
   decodeQuantum [] (encode s0 # encode s1 # encode s2 # encode s3 # src)
     = Inr (assemble [s0, s1, s2, s3], src)"
  "s0 < 64 \<Longrightarrow> s1 < 64 \<Longrightarrow> s2 < 64 \<Longrightarrow>
   decodeQuantum [] [encode s0, encode s1, encode s2, CHR ''='']
     = Inr (assemble [s0, s1, s2], [])"
  "s0 < 64 \<Longrightarrow> s1 < 64 \<Longrightarrow>
   decodeQuantum [] [encode s0, encode s1, CHR ''='', CHR ''='']
     = Inr (assemble [s0, s1], [])"
  using decodeMap_pad by (simp_all add: decodeMap_encode)

lemma assemble_unfold:
  "assemble [s0, s1, s2, s3] =
     [char_of (drop_bit 16 (push_bit 18 s0 OR push_bit 12 s1 OR push_bit 6 s2 OR s3)),
      char_of (drop_bit 8 (push_bit 18 s0 OR push_bit 12 s1 OR push_bit 6 s2 OR s3)),
      char_of (push_bit 18 s0 OR push_bit 12 s1 OR push_bit 6 s2 OR s3)]"
  "assemble [s0, s1, s2] =
     [char_of (drop_bit 16 (push_bit 18 s0 OR push_bit 12 s1 OR push_bit 6 s2)),
      char_of (drop_bit 8 (push_bit 18 s0 OR push_bit 12 s1 OR push_bit 6 s2))]"
  "assemble [s0, s1] = [char_of (drop_bit 16 (push_bit 18 s0 OR push_bit 12 s1))]"
  by (simp_all add: assemble_def)

lemma assemble_sextets:
  fixes val :: nat
  shows "assemble [drop_bit 18 val AND 0x3F, drop_bit 12 val AND 0x3F, drop_bit 6 val AND 0x3F, val AND 0x3F]
           = [char_of (drop_bit 16 (take_bit 24 val)), char_of (drop_bit 8 (take_bit 24 val)),
              char_of (take_bit 24 val)]"
    and "val AND 0x3F = 0 \<Longrightarrow>
         assemble [drop_bit 18 val AND 0x3F, drop_bit 12 val AND 0x3F, drop_bit 6 val AND 0x3F]
           = [char_of (drop_bit 16 (take_bit 24 val)), char_of (drop_bit 8 (take_bit 24 val))]"
    and "val AND 0x3F = 0 \<Longrightarrow> drop_bit 6 val AND 0x3F = 0 \<Longrightarrow>
         assemble [drop_bit 18 val AND 0x3F, drop_bit 12 val AND 0x3F]
           = [char_of (drop_bit 16 (take_bit 24 val))]"
  by (simp_all only: assemble_unfold sextets_bits sextets_bits_padded)

lemma assemble_quantum:
  fixes a b c :: char
  defines "v3 \<equiv> push_bit 16 (of_char a) OR push_bit 8 (of_char b) OR (of_char c :: nat)"
  defines "v2 \<equiv> push_bit 16 (of_char a) OR push_bit 8 (of_char b) :: nat"
  defines "v1 \<equiv> push_bit 16 (of_char a) :: nat"
  shows "assemble [drop_bit 18 v3 AND 0x3F, drop_bit 12 v3 AND 0x3F, drop_bit 6 v3 AND 0x3F, v3 AND 0x3F]
           = [a, b, c]"
    and "assemble [drop_bit 18 v2 AND 0x3F, drop_bit 12 v2 AND 0x3F, drop_bit 6 v2 AND 0x3F] = [a, b]"
    and "assemble [drop_bit 18 v1 AND 0x3F, drop_bit 12 v1 AND 0x3F] = [a]"
proof -
  show "assemble [drop_bit 18 v3 AND 0x3F, drop_bit 12 v3 AND 0x3F, drop_bit 6 v3 AND 0x3F, v3 AND 0x3F]
           = [a, b, c]"
    unfolding v3_def by (simp only: assemble_sextets(1) pack3_chars)
  have v2: "v2 = push_bit 16 (of_char a) OR push_bit 8 (of_char b) OR (of_char (CHR 0x00) :: nat)"
    by (simp add: v2_def)
  have "v2 AND 0x3F = 0"
    unfolding v2_def by (rule low_sextets_zero)
  then have "assemble [drop_bit 18 v2 AND 0x3F, drop_bit 12 v2 AND 0x3F, drop_bit 6 v2 AND 0x3F]
      = [char_of (drop_bit 16 (take_bit 24 v2)), char_of (drop_bit 8 (take_bit 24 v2))]"
    by (rule assemble_sextets(2))
  also have "\<dots> = [a, b]"
    unfolding v2 by (simp only: pack3_chars)
  finally show "assemble [drop_bit 18 v2 AND 0x3F, drop_bit 12 v2 AND 0x3F, drop_bit 6 v2 AND 0x3F] = [a, b]" .
  have v1: "v1 = push_bit 16 (of_char a) OR push_bit 8 (of_char (CHR 0x00)) OR (of_char (CHR 0x00) :: nat)"
    by (simp add: v1_def)
  have "v1 AND 0x3F = 0" "drop_bit 6 v1 AND 0x3F = 0"
    unfolding v1_def by (rule low_sextets_zero)+
  then have "assemble [drop_bit 18 v1 AND 0x3F, drop_bit 12 v1 AND 0x3F]
      = [char_of (drop_bit 16 (take_bit 24 v1))]"
    by (rule assemble_sextets(3))
  also have "\<dots> = [a]"
    unfolding v1 by (simp only: pack3_chars)
  finally show "assemble [drop_bit 18 v1 AND 0x3F, drop_bit 12 v1 AND 0x3F] = [a]" .
qed

lemma DecodeString_quantum:
  "decodeQuantum [] (c # src) = Inr (out, rest) \<Longrightarrow> DecodeString rest = Inr out' \<Longrightarrow>
   DecodeString (c # src) = Inr (out @ out')"
  by (simp del: decodeQuantum.simps)

lemma DecodeString_EncodeToString: "DecodeString (EncodeToString src) = Inr src"
proof (induction src rule: EncodeToString.induct)
  case (1 a b c src)
  define val where "val = (push_bit 16 (of_char a) OR push_bit 8 (of_char b) OR of_char c :: nat)"
  have "decodeQuantum [] (encode (drop_bit 18 val AND 0x3F) # encode (drop_bit 12 val AND 0x3F)
         # encode (drop_bit 6 val AND 0x3F) # encode (val AND 0x3F) # EncodeToString src)
       = Inr ([a, b, c], EncodeToString src)"
    unfolding val_def by (simp only: decodeQuantum_sextets(1) and63_less assemble_quantum(1))
  from DecodeString_quantum [OF this "1.IH"] show ?case
    by (simp only: EncodeToString.simps Let_def val_def append.simps)
next
  case (2 a b)
  define val where "val = (push_bit 16 (of_char a) OR push_bit 8 (of_char b) :: nat)"
  have "decodeQuantum [] [encode (drop_bit 18 val AND 0x3F), encode (drop_bit 12 val AND 0x3F),
          encode (drop_bit 6 val AND 0x3F), CHR ''='']
       = Inr ([a, b], [])"
    unfolding val_def by (simp only: decodeQuantum_sextets(2) and63_less assemble_quantum(2))
  from DecodeString_quantum [OF this DecodeString.simps(1)] show ?case
    by (simp only: EncodeToString.simps Let_def val_def append.simps)
next
  case (3 a)
  define val where "val = (push_bit 16 (of_char a) :: nat)"
  have "decodeQuantum [] [encode (drop_bit 18 val AND 0x3F), encode (drop_bit 12 val AND 0x3F),
          CHR ''='', CHR ''='']
       = Inr ([a], [])"
    unfolding val_def by (simp only: decodeQuantum_sextets(3) and63_less assemble_quantum(3))
  from DecodeString_quantum [OF this DecodeString.simps(1)] show ?case
    by (simp only: EncodeToString.simps Let_def val_def append.simps)
next
  case 4
  then show ?case by simp
qed


section \<open>Splitting and the shape of an envelope\<close>

lemma Split_no_sep: "sep \<notin> set s \<Longrightarrow> Split s sep = [s]"
  by (induction s) auto

lemma Split_append_sep:
  "sep \<notin> set d \<Longrightarrow> Split (d @ sep # rest) sep = d # Split rest sep"
  by (induction d) auto

lemma Split_not_Nil: "Split s sep \<noteq> []"
  by (induction s) (auto split: list.splits)

lemma Split_two: "sep \<in> set s \<Longrightarrow> \<exists>p q r. Split s sep = p # q # r"
  using Split_not_Nil by (induction s) (auto split: list.splits simp: neq_Nil_conv)

lemma foldl_blocks:
  "foldl (\<lambda>result block. result @ [sep] @ block) d (map f xs)
     = d @ concat (map (\<lambda>x. sep # f x) xs)"
  by (induction xs arbitrary: d) auto

lemma Split_concat_blocks:
  "sep \<notin> set d \<Longrightarrow> \<forall>x \<in> set xs. sep \<notin> set (f x) \<Longrightarrow>
   Split (d @ concat (map (\<lambda>x. sep # f x) xs)) sep = d # map f xs"
proof (induction xs arbitrary: d)
  case Nil
  then show ?case by (simp add: Split_no_sep)
next
  case (Cons x xs)
  then show ?case by (simp add: Split_append_sep)
qed

lemma encode_in_alphabet: "i < 64 \<Longrightarrow> encode i \<in> set encodeStd"
  unfolding encode_def by (rule nth_mem) (simp add: encodeStd_def)

lemma colon_not_base64: "CHR '':'' \<notin> insert CHR ''='' (set encodeStd)"
  by (simp add: encodeStd_def)

lemma EncodeToString_alphabet: "set (EncodeToString src) \<subseteq> insert CHR ''='' (set encodeStd)"
  by (induction src rule: EncodeToString.induct)
     (simp_all add: Let_def and63_less encode_in_alphabet)

lemma EncodeToString_no_colon: "CHR '':'' \<notin> set (EncodeToString src)"
  using EncodeToString_alphabet colon_not_base64 by blast

lemma Encrypt_fields:
  assumes "publicKeys e \<noteq> []"
  shows "\<exists>envelope. Encrypt e (Some key) P = (Inr envelope, e)
     \<and> Split envelope CHR '':'' = EncodeToString P # map (\<lambda>k. EncodeToString (Marshal k)) (publicKeys e)"
proof -
  let ?blocks = "map (\<lambda>k. EncodeToString (Marshal k)) (publicKeys e)"
  let ?env = "foldl (\<lambda>result block. result @ '':'' @ block) (EncodeToString P) ?blocks"
  have "Encrypt e (Some key) P = (Inr ?env, e)"
    using assms by (simp add: Encrypt_def)
  moreover have "Split ?env CHR '':'' = EncodeToString P # ?blocks"
    by (simp only: foldl_blocks Split_concat_blocks EncodeToString_no_colon
        not_False_eq_True ball_triv simp_thms)
  ultimately show ?thesis by blast
qed

lemma Decrypt_fields:
  "privateKeys d \<noteq> [] \<Longrightarrow> Split s CHR '':'' = part0 # part1 # parts \<Longrightarrow>
   Decrypt d s = (case DecodeString part0 of Inl err \<Rightarrow> Inl (DecodeFailed err)
                  | Inr decodedData \<Rightarrow> Inr decodedData, d)"
  by (simp add: Decrypt_def split: sum.splits)

subsection \<open>Evaluation at concrete inputs\<close>

lemma decodeMap_values:
  "decodeMap CHR ''X'' = 23" "decodeMap CHR ''Y'' = 24" "decodeMap CHR ''W'' = 22"
  "decodeMap CHR ''J'' = 9" "decodeMap CHR ''j'' = 35"
  by (simp_all add: decodeMap_def encodeStd_def upt_rec)

lemma DecodeString_examples:
  "DecodeString ''XWJj'' = Inr '']bc''" "DecodeString ''YWJj'' = Inr ''abc''"
  by (simp_all add: decodeMap_values assemble_def char_of_def bit_Suc_0_iff)

lemma Encrypt_example:
  "Encrypt owner (Some randomKey) ''abc'' = (Inr ''YWJj:bW9jay1lZDI1NTE5LWtleQ=='', owner)"
  by (simp add: Encrypt_def owner_def mockKey_def encode_def encodeStd_def)

section \<open>Cleaning and joining paths\<close>

lemma Split_append:
  "Split (a @ sep # b) sep = Split a sep @ Split b sep"
  using Split_not_Nil by (induction a) (auto split: list.splits)

lemma Split_elem_no_sep: "e \<in> set (Split s sep) \<Longrightarrow> sep \<notin> set e"
  by (induction s arbitrary: e) (auto split: if_splits list.splits)

lemma Split_joinElems:
  "out \<noteq> [] \<Longrightarrow> \<forall>e \<in> set out. CHR ''/'' \<notin> set e \<Longrightarrow> Split (joinElems out) CHR ''/'' = out"
proof (induction out rule: joinElems.induct)
  case 1
  then show ?case by simp
next
  case (2 e)
  then show ?case by (simp add: Split_no_sep)
next
  case (3 e v va)
  then show ?case by (simp add: Split_append_sep)
qed

lemma foldl_cleanElem_no_dotdot:
  "''..'' \<notin> set xs \<Longrightarrow>
   foldl (cleanElem r) st xs = rev (filter (\<lambda>e. e \<noteq> [] \<and> e \<noteq> ''.'') xs) @ st"
  by (induction xs arbitrary: st) auto

lemma cleanStack_Nil: "cleanStack r []"
  by (simp add: cleanStack_def)

lemma cleanStack_step:
  "cleanStack r st \<Longrightarrow> CHR ''/'' \<notin> set e \<Longrightarrow> cleanStack r (cleanElem r st e)"
  by (cases st) (auto simp add: cleanStack_def split: if_splits)

lemma cleanStack_foldl:
  "cleanStack r st \<Longrightarrow> \<forall>e \<in> set xs. CHR ''/'' \<notin> set e \<Longrightarrow> cleanStack r (foldl (cleanElem r) st xs)"
  by (induction xs arbitrary: st) (simp_all add: cleanStack_step del: cleanElem.simps)

lemma cleanStack_cleanElems: "cleanStack (isRooted path) (rev (cleanElems path))"
  unfolding cleanElems_def rev_rev_ident
  by (rule cleanStack_foldl) (auto simp add: cleanStack_Nil dest: Split_elem_no_sep)

lemma list_all_dropWhile: "list_all P xs \<Longrightarrow> list_all P (dropWhile Q xs)"
  by (induction xs) auto

lemma cleanStack_tail: "cleanStack r (e # st) \<Longrightarrow> cleanStack r st"
  by (auto simp add: cleanStack_def list_all_dropWhile split: if_splits)

lemma foldl_cleanElem_stack:
  "cleanStack r st \<Longrightarrow> foldl (cleanElem r) [] (rev st) = st"
proof (induction st)
  case Nil
  then show ?case by simp
next
  case (Cons e st)
  then have "foldl (cleanElem r) [] (rev st) = st"
    using cleanStack_tail by blast
  then have "foldl (cleanElem r) [] (rev (e # st)) = cleanElem r st e"
    by simp
  also have "\<dots> = e # st"
    using Cons.prems by (cases st) (auto simp add: cleanStack_def split: if_splits)
  finally show ?case .
qed


lemma joinElems_Cons:
  "joinElems (e # es) = (if es = [] then e else e @ CHR ''/'' # joinElems es)"
  by (cases es) simp_all

lemma hd_joinElems: "e \<noteq> [] \<Longrightarrow> joinElems (e # es) = hd e # tl (joinElems (e # es))"
  by (cases e) (simp_all add: joinElems_Cons)

lemma cleanStack_elems:
  "cleanStack r st \<Longrightarrow> e \<in> set st \<Longrightarrow> e \<noteq> [] \<and> e \<noteq> ''.'' \<and> CHR ''/'' \<notin> set e"
  by (auto simp add: cleanStack_def list_all_iff)

lemma isRooted_joinElems:
  "e \<noteq> [] \<Longrightarrow> isRooted (joinElems (e # es)) = (hd e = CHR ''/'')"
  by (cases e) (simp_all add: joinElems_Cons isRooted_def)

lemma isRooted_render: "cleanStack r (rev out) \<Longrightarrow> isRooted (render r out) = r"
proof (cases out)
  case Nil
  then show ?thesis by (simp add: render_def isRooted_def)
next
  case (Cons e es)
  assume "cleanStack r (rev out)"
  then have e: "e \<noteq> []" "CHR ''/'' \<notin> set e"
    using cleanStack_elems [of r "rev out" e] Cons by auto
  then have "hd e \<noteq> CHR ''/''"
    by (cases e) auto
  then have "\<not> isRooted (joinElems (e # es))"
    by (simp add: isRooted_joinElems [OF e(1)])
  then show ?thesis
    using Cons by (simp add: render_def isRooted_def)
qed

lemma Split_render:
  assumes "cleanStack r (rev out)"
  shows "Split (render r out) CHR ''/''
           = (if r then [] # (if out = [] then [[]] else out) else if out = [] then [''.''] else out)"
proof -
  have "\<forall>e \<in> set out. CHR ''/'' \<notin> set e"
    using assms by (auto simp add: cleanStack_def list_all_iff)
  then show ?thesis
    by (simp add: render_def Split_joinElems)
qed

lemma cleanElems_render:
  assumes "cleanStack r (rev out)"
  shows "cleanElems (render r out) = out"
proof -
  have "foldl (cleanElem r) [] (Split (render r out) CHR ''/'') = foldl (cleanElem r) [] out"
    by (simp add: Split_render [OF assms])
  also have "\<dots> = rev out"
    using foldl_cleanElem_stack [OF assms] by simp
  finally show ?thesis
    by (simp add: cleanElems_def isRooted_render [OF assms])
qed

lemma Clean_render: "path \<noteq> [] \<Longrightarrow> Clean path = render (isRooted path) (cleanElems path)"
  by (simp add: Clean_def render_def)

lemma cleanElems_Clean: "cleanElems (Clean path) = cleanElems path"
proof (cases "path = []")
  case True
  then show ?thesis by (simp add: Clean_def cleanElems_def isRooted_def)
next
  case False
  then show ?thesis
    by (simp add: Clean_render cleanElems_render cleanStack_cleanElems)
qed

lemma isRooted_Clean: "isRooted (Clean path) = isRooted path"
proof (cases "path = []")
  case True
  then show ?thesis by (simp add: Clean_def isRooted_def)
next
  case False
  then show ?thesis
    by (simp add: Clean_render isRooted_render cleanStack_cleanElems)
qed

lemma Clean_not_Nil: "Clean path \<noteq> []"
proof (cases "cleanElems path")
  case Nil
  then show ?thesis by (simp add: Clean_def)
next
  case (Cons e es)
  then have "e \<noteq> []"
    using cleanStack_elems [OF cleanStack_cleanElems, of e path] by simp
  then have "joinElems (e # es) \<noteq> []"
    using hd_joinElems [of e es] by auto
  then show ?thesis
    using Cons by (simp add: Clean_def)
qed

lemma Clean_idem: "Clean (Clean path) = Clean path"
proof -
  have "Clean (Clean path) = render (isRooted (Clean path)) (cleanElems (Clean path))"
    using Clean_not_Nil by (rule Clean_render)
  also have "\<dots> = render (isRooted path) (cleanElems path)"
    by (simp only: isRooted_Clean cleanElems_Clean)
  also have "\<dots> = Clean path"
    by (cases "path = []") (simp_all add: Clean_render, simp add: Clean_def render_def cleanElems_def isRooted_def)
  finally show ?thesis .
qed

lemma cleanElems_append:
  assumes "a \<noteq> []" and "''..'' \<notin> set (Split b CHR ''/'')"
  shows "cleanElems (a @ CHR ''/'' # b)
           = cleanElems a @ filter (\<lambda>e. e \<noteq> [] \<and> e \<noteq> ''.'') (Split b CHR ''/'')"
    and "isRooted (a @ CHR ''/'' # b) = isRooted a"
proof -
  show r: "isRooted (a @ CHR ''/'' # b) = isRooted a"
    using assms(1) by (cases a) (simp_all add: isRooted_def)
  show "cleanElems (a @ CHR ''/'' # b)
           = cleanElems a @ filter (\<lambda>e. e \<noteq> [] \<and> e \<noteq> ''.'') (Split b CHR ''/'')"
    unfolding cleanElems_def r
    by (simp add: Split_append foldl_cleanElem_no_dotdot [OF assms(2)])
qed

lemma Split_append_suffix:
  "sep \<notin> set t \<Longrightarrow> Split (s @ t) sep = butlast (Split s sep) @ [last (Split s sep) @ t]"
proof (induction s)
  case Nil
  then show ?case by (simp add: Split_no_sep)
next
  case (Cons c s)
  then show ?case
    using Split_not_Nil [of s sep] by (auto split: list.splits)
qed

lemma Split_pass_no_dotdot:
  assumes "''..'' \<notin> set (Split name CHR ''/'')"
  shows "''..'' \<notin> set (Split (name @ ''.pass'') CHR ''/'')"
proof -
  have "set (butlast (Split name CHR ''/'')) \<subseteq> set (Split name CHR ''/'')"
    by (auto dest: in_set_butlastD)
  then show ?thesis
    using assms by (auto simp add: Split_append_suffix)
qed

lemma Split_pass_last:
  "filter (\<lambda>e. e \<noteq> [] \<and> e \<noteq> ''.'') (Split (name @ ''.pass'') CHR ''/'') \<noteq> []"
  by (simp add: Split_append_suffix)

subsection \<open>The root of a store\<close>

lemma Join_not_Nil: "b \<noteq> [] \<Longrightarrow> Join a b \<noteq> []"
  by (simp add: Join_def Clean_not_Nil)

lemma NewStore_rootDir: "fst (NewStore root enc home fs) = Inr s \<Longrightarrow> rootDir s \<noteq> []"
proof (cases "root = []")
  case True
  assume ok: "fst (NewStore root enc home fs) = Inr s"
  then obtain homeDir where h: "home = Some homeDir"
    using True by (cases home) (simp_all add: NewStore_def)
  have "Join homeDir ''.passh'' \<noteq> []"
    by (rule Join_not_Nil) simp
  then show ?thesis
    using ok True h
    by (cases "MkdirAll (Join homeDir ''.passh'') 448 fs")
       (auto simp add: NewStore_def split: option.splits)
next
  case False
  assume "fst (NewStore root enc home fs) = Inr s"
  then show ?thesis
    using False
    by (cases "MkdirAll root 448 fs") (auto simp add: NewStore_def split: option.splits)
qed

section \<open>The file system calls of the store\<close>

lemma MkdirAll_calls: "calls (snd (MkdirAll path perm fs)) = calls fs @ [MkdirAllCall path perm]"
  by (simp add: MkdirAll_def logCall_def Let_def split: prod.splits)

lemma MkdirAll_cwd: "cwd (snd (MkdirAll path perm fs)) = cwd fs"
  by (simp add: MkdirAll_def logCall_def Let_def split: prod.splits)

lemma WriteFile_calls:
  "calls (snd (WriteFile name data perm wr fs)) = calls fs @ [WriteFileCall name data perm]"
  by (simp add: WriteFile_def logCall_def Let_def split: sum.splits)

lemma ReadFile_calls: "calls (snd (ReadFile name fs)) = calls fs @ [ReadFileCall name]"
  by (simp add: ReadFile_def logCall_def Let_def split: sum.splits node.splits)

lemma Remove_calls: "calls (snd (Remove name fs)) = calls fs @ [RemoveCall name]"
  by (simp add: Remove_def logCall_def Let_def split: sum.splits)

subsection \<open>The errors of opening a file\<close>

lemma lookupNode_error: "lookupNode t p = Inl err \<Longrightarrow> err \<noteq> EIO"
  by (induction t p rule: lookupNode.induct) (auto split: option.splits)

lemma resolve_error: "resolve t place es = Inl err \<Longrightarrow> err \<noteq> EIO"
  by (induction es arbitrary: place) (auto split: sum.splits node.splits dest: lookupNode_error)

lemma writeFileNode_error: "writeFileNode t p data = Inl err \<Longrightarrow> err \<noteq> EIO"
  by (induction t p data rule: writeFileNode.induct)
     (auto split: option.splits node.splits sum.splits)

subsection \<open>The file after a write\<close>

lemma lookup_writeFileNode:
  "writeFileNode t p data = Inr t' \<Longrightarrow> lookupNode t' p = Inr (File data)"
proof (induction t p data arbitrary: t' rule: writeFileNode.induct)
  case (1 n data)
  then show ?case by simp
next
  case (2 content e es data)
  then show ?case by simp
next
  case (3 entries e data)
  then show ?case
    by (auto simp add: update_conv' split: option.splits node.splits)
next
  case (4 entries e e' es data)
  then show ?case
    by (auto simp add: update_conv' split: option.splits sum.splits)
qed

lemma lookupNode_File: "lookupNode (File content) q \<noteq> Inr (Directory es)"
  by (cases q) simp_all

lemma writeFileNode_directories:
  "writeFileNode t p data = Inr t' \<Longrightarrow> lookupNode t q = Inr (Directory es)
     \<Longrightarrow> \<exists>es'. lookupNode t' q = Inr (Directory es')"
proof (induction t p data arbitrary: t' q es rule: writeFileNode.induct)
  case (1 n data)
  then show ?case by simp
next
  case (2 content e es data)
  then show ?case by simp
next
  case (3 entries e data)
  show ?case
  proof (cases q)
    case Nil
    then show ?thesis
      using "3.prems" by (auto split: option.splits node.splits)
  next
    case (Cons e0 qs)
    then show ?thesis
      using "3.prems"
      by (auto simp add: update_conv' lookupNode_File split: option.splits node.splits if_splits)
  qed
next
  case (4 entries e e' es0 data)
  from "4.prems"(1) obtain child child' where
    c: "map_of entries e = Some child" and w: "writeFileNode child (e' # es0) data = Inr child'"
    and t': "t' = Directory (AList.update e child' entries)"
    by (auto split: option.splits sum.splits)
  show ?case
  proof (cases q)
    case Nil
    then show ?thesis by (simp add: t')
  next
    case (Cons e0 qs)
    show ?thesis
    proof (cases "e0 = e")
      case True
      then have "lookupNode child qs = Inr (Directory es)"
        using "4.prems"(2) Cons c by simp
      then obtain es' where "lookupNode child' qs = Inr (Directory es')"
        using "4.IH" [OF c w] by blast
      then show ?thesis
        using True Cons by (simp add: t' update_conv')
    next
      case False
      then show ?thesis
        using "4.prems"(2) Cons by (simp add: t' update_conv')
    qed
  qed
qed

lemma resolve_writeFileNode:
  "writeFileNode t p data = Inr t' \<Longrightarrow> resolve t place es = Inr found
     \<Longrightarrow> resolve t' place es = Inr found"
proof (induction es arbitrary: place)
  case Nil
  then show ?case by simp
next
  case (Cons e es)
  from Cons.prems(2) obtain entries where
    d: "lookupNode t place = Inr (Directory entries)"
    and r: "resolve t (stepElem place e) es = Inr found"
    by (auto split: sum.splits node.splits)
  from writeFileNode_directories [OF Cons.prems(1) d]
  obtain entries' where "lookupNode t' place = Inr (Directory entries')" ..
  then show ?case
    using Cons.IH [OF Cons.prems(1) r] by simp
qed

text \<open>
  \<open>WriteFile\<close> either fails to open the file, and changes nothing, or leaves under the
  name what was written: all the data, or the first \<open>k\<close> bytes with the error of the
  write.
\<close>

lemma WriteFile_cases:
  "(\<exists>err. err \<noteq> EIO
       \<and> WriteFile name data perm wr fs = (Some err, logCall (WriteFileCall name data perm) fs))
   \<or> (fst (WriteFile name data perm wr fs) = writeError wr
       \<and> Lstat name (snd (WriteFile name data perm wr fs)) = Inr (File (written wr data)))"
proof (cases "locate (tree fs) (cwd fs) name")
  case (Inl err)
  then have "err \<noteq> EIO"
    by (auto simp add: locate_def split: if_splits dest: resolve_error)
  then show ?thesis
    using Inl by (simp add: WriteFile_def Let_def)
next
  case (Inr place)
  show ?thesis
  proof (cases "last (Split name CHR ''/'') \<in> {[], ''.'', ''..''}")
    case True
    then show ?thesis
      using Inr by (simp add: WriteFile_def Let_def)
  next
    case False
    show ?thesis
    proof (cases "writeFileNode (tree fs) place (written wr data)")
      case (Inl err)
      then have "err \<noteq> EIO"
        by (rule writeFileNode_error)
      then show ?thesis
        using Inr False Inl by (simp add: WriteFile_def Let_def)
    next
      case w: (Inr t)
      have f: "WriteFile name data perm wr fs
                 = (writeError wr, (logCall (WriteFileCall name data perm) fs)\<lparr>tree := t\<rparr>)"
        using Inr False w by (simp add: WriteFile_def Let_def)
      have n: "name \<noteq> []"
        using Inr by (auto simp add: locate_def split: if_splits)
      have "resolve (tree fs) (start (cwd fs) name) (Split name CHR ''/'') = Inr place"
        using Inr n by (simp add: locate_def)
      then have "resolve t (start (cwd fs) name) (Split name CHR ''/'') = Inr place"
        by (rule resolve_writeFileNode [OF w])
      then have "lstat t (cwd fs) name = Inr (File (written wr data))"
        using n lookup_writeFileNode [OF w] by (simp add: lstat_def locate_def)
      then show ?thesis
        by (simp add: f Lstat_def logCall_def)
    qed
  qed
qed

subsection \<open>Evaluation on the home directory\<close>

lemmas path_eval = Join_def Clean_def cleanElems_def isRooted_def Dir_def

lemma escape_paths:
  "Dir (Join ''/home/u/.passh'' ''../escape'') = ''/home/u''"
  "Join ''/home/u/.passh'' ''../escape.pass'' = ''/home/u/escape.pass''"
  by (simp_all add: path_eval)

lemma work_paths:
  "Dir (Join ''/home/u/.passh'' ''email/work'') = ''/home/u/.passh/email''"
  "Join ''/home/u/.passh'' ''email/work.pass'' = ''/home/u/.passh/email/work.pass''"
  by (simp_all add: path_eval)

lemmas fs_eval = logCall_def Lstat_def lstat_def locate_def start_def isRooted_def stepElem_def
  mkdir_def parentOf_def written_def writeError_def

lemma home_MkdirAll:
  "MkdirAll ''/home/u'' 448 homeFS = (None, homeFS\<lparr>calls := [MkdirAllCall ''/home/u'' 448]\<rparr>)"
  by (simp add: MkdirAll_def homeFS_def mkdirAll.simps fs_eval)

lemma email_MkdirAll:
  "MkdirAll ''/home/u/.passh/email'' 448 homeFS =
    (None,
     \<lparr>tree = Directory [(''home'', Directory [(''u'', Directory
               [(''.passh'', Directory [(''email'', Directory [])])])])],
      cwd = [''home'', ''u''],
      calls = [MkdirAllCall ''/home/u/.passh/email'' 448]\<rparr>)"
  by (simp add: MkdirAll_def homeFS_def mkdirAll.simps fs_eval)

lemma Add_escape:
  "Add homeStore (Some zeroKey) None ''../escape'' ''abc'' homeFS =
    (None,
     \<lparr>tree = Directory [(''home'', Directory [(''u'', Directory
               [(''.passh'', Directory []),
                (''escape.pass'', File ''YWJj:bW9jay1lZDI1NTE5LWtleQ=='')])])],
      cwd = [''home'', ''u''],
      calls = [MkdirAllCall ''/home/u'' 448,
               WriteFileCall ''/home/u/escape.pass'' ''YWJj:bW9jay1lZDI1NTE5LWtleQ=='' 384]\<rparr>)"
  by (simp add: Add_def homeStore_def Encrypt_example escape_paths home_MkdirAll Let_def)
     (simp add: homeFS_def WriteFile_def fs_eval)

lemma Add_work:
  "Add homeStore (Some zeroKey) None ''email/work'' ''abc'' homeFS =
    (None,
     \<lparr>tree = Directory [(''home'', Directory [(''u'', Directory
               [(''.passh'', Directory [(''email'', Directory
                   [(''work.pass'', File ''YWJj:bW9jay1lZDI1NTE5LWtleQ=='')])])])])],
      cwd = [''home'', ''u''],
      calls = [MkdirAllCall ''/home/u/.passh/email'' 448,
               WriteFileCall ''/home/u/.passh/email/work.pass'' ''YWJj:bW9jay1lZDI1NTE5LWtleQ=='' 384]\<rparr>)"
  by (simp add: Add_def homeStore_def Encrypt_example work_paths email_MkdirAll Let_def)
     (simp add: WriteFile_def fs_eval)

lemma Add_work_cut:
  "Add homeStore (Some zeroKey) (Some 4) ''email/work'' ''abc'' homeFS =
    (Some (WriteFailed EIO),
     \<lparr>tree = Directory [(''home'', Directory [(''u'', Directory
               [(''.passh'', Directory [(''email'', Directory
                   [(''work.pass'', File ''YWJj'')])])])])],
      cwd = [''home'', ''u''],
      calls = [MkdirAllCall ''/home/u/.passh/email'' 448,
               WriteFileCall ''/home/u/.passh/email/work.pass'' ''YWJj:bW9jay1lZDI1NTE5LWtleQ=='' 384]\<rparr>)"
  by (simp add: Add_def homeStore_def Encrypt_example work_paths email_MkdirAll Let_def)
     (simp add: WriteFile_def fs_eval)

lemma not_inside: "\<not> inside ''/home/u/.passh'' ''/home/u/escape.pass''"
  by (simp add: inside_def cleanElems_def isRooted_def)

section \<open>The walk of \<open>List\<close>\<close>

subsection \<open>The files of a tree\<close>

lemma foldE_append:
  "foldE f (xs @ ys) acc = (case foldE f xs acc of Inl err \<Rightarrow> Inl err | Inr acc' \<Rightarrow> foldE f ys acc')"
  by (induction xs arbitrary: acc) (auto split: sum.splits)

lemma files_valid:
  "wfNode n \<Longrightarrow> p \<in> set (files n) \<Longrightarrow> list_all validName p"
proof (induction n arbitrary: p rule: files.induct)
  case (1 content)
  then show ?case by simp
next
  case (2 entries)
  from "2.prems"(2) obtain name child q where
    e: "(name, child) \<in> set entries" and q: "q \<in> set (files child)" and p: "p = name # q"
    by auto
  from "2.prems"(1) e have "validName name" "wfNode child"
    by (auto simp add: list_all_iff)
  moreover have "list_all validName q"
    using "2.IH" [of "(name, child)" name child q] e q \<open>wfNode child\<close> by simp
  ultimately show ?case by (simp add: p)
qed

lemma files_lookup:
  "wfNode n \<Longrightarrow> p \<in> set (files n) \<longleftrightarrow> (\<exists>content. lookupNode n p = Inr (File content))"
proof (induction n arbitrary: p rule: files.induct)
  case (1 content)
  then show ?case by (cases p) auto
next
  case (2 entries)
  have d: "distinct (map fst entries)" using "2.prems" by simp
  show ?case
  proof (cases p)
    case Nil
    then show ?thesis by auto
  next
    case (Cons name q)
    have "p \<in> set (files (Directory entries))
          \<longleftrightarrow> (\<exists>child. (name, child) \<in> set entries \<and> q \<in> set (files child))"
      using Cons by auto
    also have "\<dots> \<longleftrightarrow> (\<exists>child. (name, child) \<in> set entries
                            \<and> (\<exists>content. lookupNode child q = Inr (File content)))"
    proof -
      have "q \<in> set (files child) \<longleftrightarrow> (\<exists>content. lookupNode child q = Inr (File content))"
        if "(name, child) \<in> set entries" for child
        using "2.IH" [of "(name, child)" name child q] that "2.prems"
        by (auto simp add: list_all_iff)
      then show ?thesis by blast
    qed
    also have "\<dots> \<longleftrightarrow> (\<exists>content. lookupNode (Directory entries) p = Inr (File content))"
    proof (cases "map_of entries name")
      case None
      then have "\<And>child. (name, child) \<notin> set entries"
        using d by (metis map_of_eq_Some_iff option.distinct(1))
      then show ?thesis using None Cons by simp
    next
      case (Some child)
      then have "\<And>child'. (name, child') \<in> set entries \<longleftrightarrow> child' = child"
        using d by (metis map_of_eq_Some_iff option.inject)
      then show ?thesis using Some Cons by simp
    qed
    finally show ?thesis .
  qed
qed

lemma sorted_names:
  "distinct (map fst entries) \<Longrightarrow> sorted_wrt (<) (map fst (sort_key fst entries))"
proof -
  assume "distinct (map fst entries)"
  then have "distinct (map fst (sort_key fst entries))"
    by (simp add: distinct_map)
  then show ?thesis
    by (simp add: strict_sorted_iff)
qed

lemma sorted_children:
  fixes xs :: "(string \<times> node) list"
  assumes "sorted_wrt (<) (map fst xs)"
    and "\<And>n c. (n, c) \<in> set xs \<Longrightarrow> sorted_wrt (<) (files c)"
  shows "sorted_wrt (<) (concat (map (\<lambda>(n, child). map ((#) n) (files child)) xs))"
  using assms
proof (induction xs)
  case Nil
  then show ?case by simp
next
  case (Cons x xs)
  obtain n c where x: "x = (n, c)" by (cases x)
  have "sorted_wrt (<) (map ((#) n) (files c))"
    using Cons.prems(2) [of n c] x by (simp add: sorted_wrt_map)
  moreover have "sorted_wrt (<) (concat (map (\<lambda>(n, child). map ((#) n) (files child)) xs))"
  proof (rule Cons.IH)
    show "sorted_wrt (<) (map fst xs)" using Cons.prems(1) by simp
    show "sorted_wrt (<) (files c)" if "(n, c) \<in> set xs" for n c
      using Cons.prems(2) [of n c] that by simp
  qed
  moreover have "p < q" if "p \<in> set (map ((#) n) (files c))"
    and "q \<in> set (concat (map (\<lambda>(n, child). map ((#) n) (files child)) xs))" for p q
  proof -
    from that(2) obtain m c' q' where "(m, c') \<in> set xs" "q = m # q'" by auto
    moreover from this Cons.prems(1) x have "n < m" by force
    moreover from that(1) obtain p' where "p = n # p'" by auto
    ultimately show ?thesis by simp
  qed
  ultimately show ?case
    by (simp add: x sorted_wrt_append)
qed

lemma files_sorted: "wfNode n \<Longrightarrow> sorted_wrt (<) (files n)"
proof (induction n rule: files.induct)
  case (1 content)
  then show ?case by simp
next
  case (2 entries)
  have "sorted_wrt (<) (files c)" if "(n, c) \<in> set (sort_key fst entries)" for n c
    using "2.IH" [of "(n, c)" n c] that "2.prems" by (auto simp add: list_all_iff)
  moreover have "sorted_wrt (<) (map fst (sort_key fst entries))"
    using "2.prems" by (simp add: sorted_names)
  ultimately show ?case
    using sorted_children [of "sort_key fst entries"] by simp
qed

lemma passFiles_sorted: "wfNode n \<Longrightarrow> sorted_wrt (<) (passFiles n)"
  unfolding passFiles_def by (rule sorted_wrt_filter) (rule files_sorted)

subsection \<open>The paths of the walk\<close>

lemma cleanStack_push: "cleanStack r st \<Longrightarrow> validName n \<Longrightarrow> cleanStack r (n # st)"
  by (auto simp add: cleanStack_def validName_def)

lemma cleanStack_append_valid:
  "cleanStack r (rev out) \<Longrightarrow> list_all validName rel \<Longrightarrow> cleanStack r (rev (out @ rel))"
proof (induction rel arbitrary: out)
  case Nil
  then show ?case by simp
next
  case (Cons n rel)
  then have "cleanStack r (rev (out @ [n]))"
    by (simp add: cleanStack_push)
  then have "cleanStack r (rev ((out @ [n]) @ rel))"
    using Cons by (intro Cons.IH) simp_all
  then show ?case by simp
qed

lemma render_not_Nil: "cleanStack r (rev out) \<Longrightarrow> render r out \<noteq> []"
proof (cases out)
  case Nil
  then show ?thesis by (simp add: render_def)
next
  case (Cons e es)
  assume "cleanStack r (rev out)"
  then have "e \<noteq> []"
    using cleanStack_elems [of r "rev out" e] Cons by simp
  then have "joinElems (e # es) \<noteq> []"
    using hd_joinElems [of e es] by auto
  then show ?thesis using Cons by (simp add: render_def)
qed

lemma Clean_append_valid:
  assumes "a \<noteq> []" and "validName n"
  shows "Clean (a @ CHR ''/'' # n) = render (isRooted a) (cleanElems a @ [n])"
proof -
  have s: "Split n CHR ''/'' = [n]"
    using assms(2) by (simp add: Split_no_sep validName_def)
  then have nd: "''..'' \<notin> set (Split n CHR ''/'')"
    using assms(2) by (auto simp add: validName_def)
  have "cleanElems (a @ CHR ''/'' # n) = cleanElems a @ [n]"
    using cleanElems_append(1) [OF assms(1) nd] assms(2) by (simp add: s validName_def)
  moreover have "isRooted (a @ CHR ''/'' # n) = isRooted a"
    by (rule cleanElems_append(2) [OF assms(1) nd])
  ultimately show ?thesis
    by (simp add: Clean_render)
qed

lemma Join_root:
  "root \<noteq> [] \<Longrightarrow> validName n \<Longrightarrow>
   Join root n = render (isRooted root) (cleanElems root @ [n])"
  by (simp add: Join_def Clean_append_valid)

lemma Join_render:
  assumes "cleanStack r (rev out)" and "validName n"
  shows "Join (render r out) n = render r (out @ [n])"
  using Join_root [OF render_not_Nil [OF assms(1)] assms(2)]
  by (simp add: isRooted_render [OF assms(1)] cleanElems_render [OF assms(1)])

lemma Clean_of_render: "cleanStack r (rev out) \<Longrightarrow> Clean (render r out) = render r out"
  by (simp add: Clean_render render_not_Nil isRooted_render cleanElems_render)

lemma pathElems_render:
  assumes "cleanStack r (rev out)" and "out \<noteq> []"
  shows "pathElems (render r out) = out"
proof -
  have "\<forall>e \<in> set out. e \<noteq> []"
    using cleanStack_elems [OF assms(1)] by auto
  then have "filter (\<lambda>elem. elem \<noteq> []) out = out"
    by (simp add: filter_id_conv)
  then show ?thesis
    using assms(2) by (simp add: pathElems_def Split_render [OF assms(1)])
qed

lemma dropCommon_prefix: "dropCommon base (base @ rel) = ([], rel)"
  by (induction base) simp_all

lemma Rel_render:
  assumes "root \<noteq> []" and "rel \<noteq> []" and "list_all validName rel"
  shows "Rel root (render (isRooted root) (cleanElems root @ rel)) = Inr (joinElems rel)"
proof -
  let ?r = "isRooted root" and ?base = "cleanElems root"
  let ?targ = "render ?r (?base @ rel)"
  have cb: "cleanStack ?r (rev ?base)" by (rule cleanStack_cleanElems)
  have ct: "cleanStack ?r (rev (?base @ rel))"
    using cb assms(3) by (rule cleanStack_append_valid)
  have b: "Clean root = render ?r ?base"
    using assms(1) by (rule Clean_render)
  have t: "Clean ?targ = ?targ"
    using ct by (rule Clean_of_render)
  have ne: "?targ \<noteq> render ?r ?base"
  proof
    assume "?targ = render ?r ?base"
    then have "cleanElems ?targ = cleanElems (render ?r ?base)" by simp
    then show False
      using assms(2) by (simp add: cleanElems_render [OF cb] cleanElems_render [OF ct])
  qed
  let ?b = "if render ?r ?base = ''.'' then [] else render ?r ?base"
  have rb: "isRooted ?b = ?r"
    using isRooted_render [OF cb] by (auto simp add: isRooted_def)
  have rt: "isRooted ?targ = ?r"
    using ct by (rule isRooted_render)
  have pb: "pathElems ?b = ?base"
  proof (cases "?base = []")
    case True
    then show ?thesis by (simp add: render_def pathElems_def)
  next
    case False
    have "render ?r ?base \<noteq> ''.''"
    proof
      assume "render ?r ?base = ''.''"
      then have "cleanElems (render ?r ?base) = cleanElems ''.''" by simp
      then show False
        using False by (simp add: cleanElems_render [OF cb], simp add: cleanElems_def isRooted_def)
    qed
    then show ?thesis
      using False by (simp add: pathElems_render [OF cb])
  qed
  have pt: "pathElems ?targ = ?base @ rel"
    using assms(2) by (simp add: pathElems_render [OF ct])
  show ?thesis
    unfolding Rel_def b t Let_def using ne
    by (simp only: rb rt pb pt dropCommon_prefix if_False simp_thms prod.case list.case)
qed

subsection \<open>What the walk appends\<close>

lemma listed_File: "listed rel (File content) = map entryName (filter isPassFile [rel])"
  by (simp add: listed_def)

lemma listed_Directory:
  "listed rel (Directory entries)
     = concat (map (\<lambda>(n, child). listed (rel @ [n]) child) (sort_key fst entries))"
proof -
  have "map entryName (filter isPassFile
          (map (\<lambda>q. rel @ q) (concat (map (\<lambda>(n, child). map ((#) n) (files child)) xs))))
          = concat (map (\<lambda>(n, child). listed (rel @ [n]) child) xs)"
    for xs :: "(string \<times> node) list"
    by (induction xs) (auto simp add: listed_def comp_def)
  then show ?thesis
    by (simp add: listed_def)
qed

lemma listed_Nil: "listed [] n = map entryName (passFiles n)"
  by (simp add: listed_def passFiles_def)

lemma listFn_dir: "listFn root path (Inr (name, True)) acc = Inr acc"
  by (simp add: listFn_def)

lemma listFn_file:
  assumes "root \<noteq> []" and "rel \<noteq> []" and "list_all validName rel"
  shows "listFn root (render (isRooted root) (cleanElems root @ rel)) (Inr (last rel, False)) acc
           = Inr (acc @ map entryName (filter isPassFile [rel]))"
  using assms(2)
  by (simp add: listFn_def Rel_render [OF assms] isPassFile_def entryName_def)

lemma children_fold:
  assumes "\<And>n c acc. (n, c) \<in> set xs \<Longrightarrow>
             foldE f (visits (Join path n) n c) acc = Inr (acc @ listed (rel @ [n]) c)"
  shows "foldE f (concat (map (\<lambda>(n, child). visits (Join path n) n child) xs)) acc
           = Inr (acc @ concat (map (\<lambda>(n, child). listed (rel @ [n]) child) xs))"
  using assms
proof (induction xs arbitrary: acc)
  case Nil
  then show ?case by simp
next
  case (Cons x xs)
  obtain n c where x: "x = (n, c)" by (cases x)
  have 1: "foldE f (visits (Join path n) n c) acc = Inr (acc @ listed (rel @ [n]) c)"
    using Cons.prems [of n c acc] x by simp
  have 2: "foldE f (concat (map (\<lambda>(n, child). visits (Join path n) n child) xs)) acc'
           = Inr (acc' @ concat (map (\<lambda>(n, child). listed (rel @ [n]) child) xs))" for acc'
    by (rule Cons.IH) (use Cons.prems in simp)
  show ?case
    by (simp add: x foldE_append 1 2)
qed

lemma node_fold:
  assumes "root \<noteq> []"
  shows "wfNode n \<Longrightarrow> list_all validName rel \<Longrightarrow> rel \<noteq> [] \<Longrightarrow>
     foldE (\<lambda>(path, info). listFn root path (Inr info))
        (visits (render (isRooted root) (cleanElems root @ rel)) (last rel) n) acc
       = Inr (acc @ listed rel n)"
proof (induction n arbitrary: rel acc rule: files.induct)
  case (1 content)
  then show ?case
    by (simp add: listFn_file [OF assms] listed_File)
next
  case (2 entries)
  let ?f = "\<lambda>(path, info). listFn root path (Inr info)"
  let ?path = "render (isRooted root) (cleanElems root @ rel)"
  have cs: "cleanStack (isRooted root) (rev (cleanElems root @ rel))"
    using cleanStack_cleanElems "2.prems"(2) by (rule cleanStack_append_valid)
  have step: "foldE ?f (visits (Join ?path n) n c) acc' = Inr (acc' @ listed (rel @ [n]) c)"
    if "(n, c) \<in> set (sort_key fst entries)" for n c acc'
  proof -
    from that "2.prems"(1) have v: "validName n" and w: "wfNode c"
      by (auto simp add: list_all_iff)
    have j: "Join ?path n = render (isRooted root) (cleanElems root @ (rel @ [n]))"
      using Join_render [OF cs v] by simp
    have "foldE ?f (visits (render (isRooted root) (cleanElems root @ (rel @ [n]))) (last (rel @ [n])) c) acc'
            = Inr (acc' @ listed (rel @ [n]) c)"
      using "2.IH" [of "(n, c)" n c "rel @ [n]" acc'] that w v "2.prems"(2) by simp
    then show ?thesis by (simp add: j)
  qed
  have "foldE ?f (concat (map (\<lambda>(n, child). visits (Join ?path n) n child) (sort_key fst entries))) acc
          = Inr (acc @ concat (map (\<lambda>(n, child). listed (rel @ [n]) child) (sort_key fst entries)))"
    by (rule children_fold) (rule step)
  then show ?case
    by (simp add: listFn_dir listed_Directory)
qed

lemma List_listed:
  assumes "Lstat (rootDir s) fs = Inr (Directory entries)" and "wfNode (Directory entries)"
  shows "List s fs = Inr (map entryName (passFiles (Directory entries)))"
proof -
  let ?root = "rootDir s"
  let ?f = "\<lambda>(path, info). listFn ?root path (Inr info)"
  have ne: "?root \<noteq> []"
    using assms(1) by (auto simp add: Lstat_def lstat_def locate_def split: if_splits)
  have step: "foldE ?f (visits (Join ?root n) n c) acc = Inr (acc @ listed ([] @ [n]) c)"
    if "(n, c) \<in> set (sort_key fst entries)" for n c acc
  proof -
    from that assms(2) have v: "validName n" and w: "wfNode c"
      by (auto simp add: list_all_iff)
    have "foldE ?f (visits (render (isRooted ?root) (cleanElems ?root @ [n])) (last [n]) c) acc
            = Inr (acc @ listed [n] c)"
      using node_fold [OF ne w, of "[n]" acc] v by simp
    then show ?thesis by (simp add: Join_root [OF ne v])
  qed
  have "foldE ?f (concat (map (\<lambda>(n, child). visits (Join ?root n) n child) (sort_key fst entries))) []
          = Inr ([] @ concat (map (\<lambda>(n, child). listed ([] @ [n]) child) (sort_key fst entries)))"
    by (rule children_fold) (rule step)
  then have "Walk ?root (listFn ?root) [] fs = Inr (listed [] (Directory entries))"
    by (simp add: Walk_def assms(1) listFn_dir listed_Directory)
  then show ?thesis
    by (simp add: List_def listed_Nil)
qed

subsection \<open>Entry names\<close>

lemma HasSuffix_append: "HasSuffix (pre @ x) x"
  by (simp add: HasSuffix_def)

lemma HasSuffix_split: "HasSuffix s x \<Longrightarrow> s = TrimSuffix s x @ x"
  by (auto simp add: HasSuffix_def TrimSuffix_def) (metis append_take_drop_id)

lemma joinElems_last: "p \<noteq> [] \<Longrightarrow> \<exists>pre. joinElems p = pre @ last p"
  by (induction p rule: joinElems.induct) auto

lemma HasSuffix_joinElems: "isPassFile p \<Longrightarrow> HasSuffix (joinElems p) ''.pass''"
proof -
  assume a: "isPassFile p"
  then obtain pre where "joinElems p = pre @ last p"
    using joinElems_last by (auto simp add: isPassFile_def)
  moreover from a have "last p = TrimSuffix (last p) ''.pass'' @ ''.pass''"
    using HasSuffix_split by (auto simp add: isPassFile_def)
  ultimately have "joinElems p = (pre @ TrimSuffix (last p) ''.pass'') @ ''.pass''"
    by simp
  then show ?thesis
    using HasSuffix_append by metis
qed

lemma joinElems_inj:
  assumes "list_all validName p" "list_all validName q" "p \<noteq> []" "q \<noteq> []"
    and "joinElems p = joinElems q"
  shows "p = q"
proof -
  have "\<forall>e \<in> set p. CHR ''/'' \<notin> set e"
    using assms(1) by (simp add: list_all_iff validName_def)
  with assms(3) have p: "Split (joinElems p) CHR ''/'' = p"
    by (rule Split_joinElems)
  have "\<forall>e \<in> set q. CHR ''/'' \<notin> set e"
    using assms(2) by (simp add: list_all_iff validName_def)
  with assms(4) have q: "Split (joinElems q) CHR ''/'' = q"
    by (rule Split_joinElems)
  have "p = Split (joinElems p) CHR ''/''"
    by (rule p [symmetric])
  also have "\<dots> = Split (joinElems q) CHR ''/''"
    by (simp only: assms(5))
  also have "\<dots> = q"
    by (rule q)
  finally show ?thesis .
qed

lemma entryName_inj:
  assumes "wfNode n" "p \<in> set (passFiles n)" "q \<in> set (passFiles n)"
    and "entryName p = entryName q"
  shows "p = q"
proof -
  have v: "list_all validName p" "list_all validName q"
    using assms(1-3) files_valid by (auto simp add: passFiles_def)
  have i: "isPassFile p" "isPassFile q"
    using assms(2,3) by (auto simp add: passFiles_def)
  then have "joinElems p = entryName p @ ''.pass''" "joinElems q = entryName q @ ''.pass''"
    unfolding entryName_def by (auto intro: HasSuffix_split HasSuffix_joinElems)
  then have "joinElems p = joinElems q"
    using assms(4) by simp
  then show ?thesis
    using v i joinElems_inj by (auto simp add: isPassFile_def)
qed

lemma entryNames_distinct:
  assumes "wfNode n"
  shows "distinct (map entryName (passFiles n))"
proof -
  have "distinct (passFiles n)"
    using passFiles_sorted [OF assms] by (simp add: strict_sorted_iff)
  moreover have "inj_on entryName (set (passFiles n))"
    using entryName_inj [OF assms] by (auto intro: inj_onI)
  ultimately show ?thesis
    by (simp add: distinct_map)
qed

lemma passFiles_lookup:
  assumes "wfNode n"
  shows "p \<in> set (passFiles n)
     \<longleftrightarrow> (\<exists>content. lookupNode n p = Inr (File content)) \<and> p \<noteq> [] \<and> HasSuffix (last p) ''.pass''"
  using files_lookup [OF assms, of p] by (auto simp add: passFiles_def isPassFile_def)

subsection \<open>Evaluation on a nested store\<close>

lemma nested_Lstat: "Lstat (rootDir homeStore) nestedFS = Inr nestedStore"
  by (simp add: homeStore_def nestedFS_def fs_eval)

lemma nested_wf: "wfNode nestedStore"
  by (simp add: nestedStore_def validName_def)

lemma nested_passFiles: "passFiles nestedStore = [[''a'', ''b.pass''], [''a.pass'']]"
  by (simp add: nestedStore_def passFiles_def isPassFile_def HasSuffix_def less_eq_char_def)

lemma nested_names: "entryName [''a'', ''b.pass''] = ''a/b''" "entryName [''a.pass''] = ''a''"
  by (simp_all add: entryName_def TrimSuffix_def HasSuffix_def)

subsection \<open>A root that leads through a missing directory\<close>

text \<open>
  The root \<open>/home/u/missing/../.passh\<close> cleans to \<open>/home/u/.passh\<close>, but it is handed
  to the file system as it is: while \<open>missing\<close> does not exist, \<open>Lstat\<close> of the root
  fails, and so does \<open>List\<close>; \<open>MkdirAll\<close>, which \<open>NewStore\<close> calls on the root, makes
  \<open>missing\<close>.
\<close>

lemma List_root_error:
  "Lstat (rootDir s) fs = Inl err \<Longrightarrow> List s fs = Inl (ListFailed (WalkFailed err))"
  by (simp add: List_def Walk_def listFn_def)

lemma missing_Lstat: "Lstat ''/home/u/missing/../.passh'' nestedFS = Inl ENOENT"
  by (simp add: nestedFS_def fs_eval)

lemma missing_List:
  "List \<lparr>rootDir = ''/home/u/missing/../.passh'', encryptor = owner\<rparr> nestedFS
     = Inl (ListFailed (WalkFailed ENOENT))"
  by (rule List_root_error) (simp add: missing_Lstat)

lemma missing_MkdirAll:
  "MkdirAll ''/home/u/missing/../.passh'' 448 homeFS =
    (None,
     \<lparr>tree = Directory [(''home'', Directory [(''u'', Directory
               [(''.passh'', Directory []), (''missing'', Directory [])])])],
      cwd = [''home'', ''u''],
      calls = [MkdirAllCall ''/home/u/missing/../.passh'' 448]\<rparr>)"
  by (simp add: MkdirAll_def homeFS_def mkdirAll.simps fs_eval)

section \<open>The claims\<close>

text \<open>
  C1. For every non-empty plaintext \<open>P\<close> and every encryptor \<open>e\<close> with at least one
  registered public key, \<open>Encrypt\<close> (whose random read succeeded) returns an envelope,
  and \<open>Decrypt\<close> of that envelope by an encryptor \<open>d\<close> holding a signer whose public key
  is among the recipients returns exactly \<open>P\<close>.
\<close>

theorem Decrypt_Encrypt_roundtrip:
  assumes "P \<noteq> []" and "publicKeys e \<noteq> []"
    and "signer \<in> set (privateKeys d)" and "signerPublicKey signer \<in> set (publicKeys e)"
  shows "\<exists>envelope. fst (Encrypt e (Some randomKey) P) = Inr envelope
           \<and> fst (Decrypt d envelope) = Inr P"
proof -
  obtain envelope where enc: "Encrypt e (Some randomKey) P = (Inr envelope, e)"
    and fields: "Split envelope CHR '':''
                   = EncodeToString P # map (\<lambda>k. EncodeToString (Marshal k)) (publicKeys e)"
    using Encrypt_fields [OF assms(2)] by blast
  from assms(2) obtain k ks where "publicKeys e = k # ks"
    by (cases "publicKeys e") auto
  with fields have "Split envelope CHR '':''
      = EncodeToString P # EncodeToString (Marshal k) # map (\<lambda>k. EncodeToString (Marshal k)) ks"
    by simp
  moreover have "privateKeys d \<noteq> []" using assms(3) by auto
  ultimately have "fst (Decrypt d envelope) = Inr P"
    by (simp add: Decrypt_fields DecodeString_EncodeToString)
  with enc show ?thesis by simp
qed

theorem Decrypt_Encrypt_roundtrip_witness:
  "\<exists>envelope. fst (Encrypt owner (Some zeroKey) ''S3cr3t!'') = Inr envelope
      \<and> fst (Decrypt owner envelope) = Inr ''S3cr3t!''"
  using Decrypt_Encrypt_roundtrip [of "''S3cr3t!''" owner "\<lparr>signerPublicKey = mockKey\<rparr>" owner zeroKey]
  by (simp add: owner_def)

text \<open>
  C2. The claim asks that a single flipped bit in the ciphertext makes \<open>Decrypt\<close> fail.
  The code has no integrity tag: the envelope of \<open>''abc''\<close> with the lowest bit of
  its first byte flipped decrypts, without error, to the different plaintext \<open>'']bc''\<close>.
\<close>

theorem Decrypt_tampered_returns_plaintext:
  "fst (Encrypt owner (Some zeroKey) ''abc'') = Inr ''YWJj:bW9jay1lZDI1NTE5LWtleQ==''
   \<and> flipBit 0 0 ''YWJj:bW9jay1lZDI1NTE5LWtleQ=='' = ''XWJj:bW9jay1lZDI1NTE5LWtleQ==''
   \<and> fst (Decrypt owner ''XWJj:bW9jay1lZDI1NTE5LWtleQ=='') = Inr '']bc''"
proof -
  have "flipBit 0 0 ''YWJj:bW9jay1lZDI1NTE5LWtleQ=='' = ''XWJj:bW9jay1lZDI1NTE5LWtleQ==''"
    by (simp add: flipBit_def flip_bit_eq_xor char_of_def bit_Suc_0_iff)
  moreover have "fst (Decrypt owner ''XWJj:bW9jay1lZDI1NTE5LWtleQ=='') = Inr '']bc''"
    by (simp add: Decrypt_def owner_def DecodeString_examples del: DecodeString.simps)
  ultimately show ?thesis
    by (simp only: Encrypt_example fst_conv simp_thms)
qed

text \<open>
  C3 (as amended). The store does not validate names. Whatever the name, \<open>Get\<close> makes
  one call to the file system, \<open>ReadFile\<close> of \<open>Join rootDir (name + ".pass")\<close>, and
  returns what \<open>Decrypt\<close> makes of the file read, or the error of the read; \<open>Delete\<close>
  makes one, \<open>Remove\<close> of that path, and returns its outcome; and \<open>Add\<close>, once
  encryption has succeeded, calls \<open>MkdirAll\<close> on \<open>Dir (Join rootDir name)\<close> and, if that
  succeeds, \<open>WriteFile\<close> on that path. For a store with a non-empty root and every
  name that has no \<open>..\<close> element, that path is strictly inside the root.
\<close>

theorem store_names_not_validated:
  "calls (snd (Get s name fs))
     = calls fs @ [ReadFileCall (Join (rootDir s) (name @ ''.pass''))]
   \<and> fst (Get s name fs)
       = (case fst (ReadFile (Join (rootDir s) (name @ ''.pass'')) fs) of
            Inl err \<Rightarrow> Inl (ReadFailed err)
          | Inr encryptedData \<Rightarrow>
              (case fst (Decrypt (encryptor s) encryptedData) of
                 Inl err \<Rightarrow> Inl (DecryptionFailed err)
               | Inr secret \<Rightarrow> Inr secret))
   \<and> calls (snd (Delete s name fs))
       = calls fs @ [RemoveCall (Join (rootDir s) (name @ ''.pass''))]
   \<and> Delete s name fs
       = (map_option DeleteFailed (fst (Remove (Join (rootDir s) (name @ ''.pass'')) fs)),
          snd (Remove (Join (rootDir s) (name @ ''.pass'')) fs))
   \<and> (\<forall>envelope. fst (Encrypt (encryptor s) rnd password) = Inr envelope \<longrightarrow>
         calls (snd (Add s rnd wr name password fs))
           = calls fs @ MkdirAllCall (Dir (Join (rootDir s) name)) 448
               # (if fst (MkdirAll (Dir (Join (rootDir s) name)) 448 fs) = None
                  then [WriteFileCall (Join (rootDir s) (name @ ''.pass'')) envelope 384]
                  else []))
   \<and> (rootDir s \<noteq> [] \<and> ''..'' \<notin> set (Split name CHR ''/'')
        \<longrightarrow> inside (rootDir s) (Join (rootDir s) (name @ ''.pass'')))"
proof (intro conjI allI impI)
  let ?file = "Join (rootDir s) (name @ ''.pass'')"
  let ?dir = "Dir (Join (rootDir s) name)"
  have "snd (Get s name fs) = snd (ReadFile ?file fs)"
    by (cases "ReadFile ?file fs") (auto simp add: Get_def Let_def split: sum.splits)
  then show "calls (snd (Get s name fs)) = calls fs @ [ReadFileCall ?file]"
    by (simp add: ReadFile_calls)
  show "fst (Get s name fs)
       = (case fst (ReadFile ?file fs) of
            Inl err \<Rightarrow> Inl (ReadFailed err)
          | Inr encryptedData \<Rightarrow>
              (case fst (Decrypt (encryptor s) encryptedData) of
                 Inl err \<Rightarrow> Inl (DecryptionFailed err)
               | Inr secret \<Rightarrow> Inr secret))"
    by (cases "ReadFile ?file fs") (auto simp add: Get_def Let_def split: sum.splits)
  show d: "Delete s name fs
       = (map_option DeleteFailed (fst (Remove ?file fs)), snd (Remove ?file fs))"
    by (cases "Remove ?file fs") (auto simp add: Delete_def Let_def split: option.splits)
  show "calls (snd (Delete s name fs)) = calls fs @ [RemoveCall ?file]"
    unfolding d by (simp add: Remove_calls)
  show "calls (snd (Add s rnd wr name password fs))
          = calls fs @ MkdirAllCall ?dir 448
              # (if fst (MkdirAll ?dir 448 fs) = None
                 then [WriteFileCall ?file envelope 384] else [])"
    if enc: "fst (Encrypt (encryptor s) rnd password) = Inr envelope" for envelope
  proof (cases "fst (MkdirAll ?dir 448 fs)")
    case (Some err)
    then have "snd (Add s rnd wr name password fs) = snd (MkdirAll ?dir 448 fs)"
      using enc by (cases "MkdirAll ?dir 448 fs") (simp add: Add_def)
    then show ?thesis
      using Some by (simp add: MkdirAll_calls)
  next
    case None
    then have "snd (Add s rnd wr name password fs)
                 = snd (WriteFile ?file envelope 384 wr (snd (MkdirAll ?dir 448 fs)))"
      using enc
      by (cases "MkdirAll ?dir 448 fs";
          cases "WriteFile ?file envelope 384 wr (snd (MkdirAll ?dir 448 fs))")
         (auto simp add: Add_def split: option.splits)
    then show ?thesis
      using None by (simp add: WriteFile_calls MkdirAll_calls)
  qed
  show "inside (rootDir s) ?file"
    if h: "rootDir s \<noteq> [] \<and> ''..'' \<notin> set (Split name CHR ''/'')"
  proof -
    let ?y = "rootDir s @ CHR ''/'' # (name @ ''.pass'')"
    let ?rest = "filter (\<lambda>e. e \<noteq> [] \<and> e \<noteq> ''.'') (Split (name @ ''.pass'') CHR ''/'')"
    from h have ne: "rootDir s \<noteq> []" and nd0: "''..'' \<notin> set (Split name CHR ''/'')"
      by simp_all
    have nd: "''..'' \<notin> set (Split (name @ ''.pass'') CHR ''/'')"
      using nd0 by (rule Split_pass_no_dotdot)
    have j: "Join (rootDir s) (name @ ''.pass'') = Clean ?y"
      using ne by (simp add: Join_def)
    have e: "cleanElems (Clean ?y) = cleanElems (rootDir s) @ ?rest"
      by (simp only: cleanElems_Clean cleanElems_append(1) [OF ne nd])
    have r: "isRooted (Clean ?y) = isRooted (rootDir s)"
      by (simp only: isRooted_Clean cleanElems_append(2) [OF ne nd])
    have "?rest \<noteq> []" by (rule Split_pass_last)
    moreover have "''..'' \<notin> set ?rest" using nd by simp
    ultimately show ?thesis
      unfolding inside_def j e r by simp
  qed
qed

theorem store_names_not_validated_witness:
  "calls (snd (Get homeStore ''email/work'' homeFS))
     = [ReadFileCall ''/home/u/.passh/email/work.pass'']
   \<and> calls (snd (Delete homeStore ''email/work'' homeFS))
       = [RemoveCall ''/home/u/.passh/email/work.pass'']
   \<and> calls (snd (Add homeStore (Some zeroKey) None ''email/work'' ''abc'' homeFS))
       = [MkdirAllCall ''/home/u/.passh/email'' 448,
          WriteFileCall ''/home/u/.passh/email/work.pass'' ''YWJj:bW9jay1lZDI1NTE5LWtleQ=='' 384]
   \<and> inside ''/home/u/.passh'' ''/home/u/.passh/email/work.pass''"
proof -
  have enc: "fst (Encrypt (encryptor homeStore) (Some zeroKey) ''abc'')
               = Inr ''YWJj:bW9jay1lZDI1NTE5LWtleQ==''"
    by (simp add: homeStore_def Encrypt_example)
  have m: "fst (MkdirAll ''/home/u/.passh/email'' 448 homeFS) = None"
    by (simp add: email_MkdirAll)
  have h: "rootDir homeStore \<noteq> [] \<and> ''..'' \<notin> set (Split ''email/work'' CHR ''/'')"
    by (simp add: homeStore_def)
  have c: "calls homeFS = []"
    by (simp add: homeFS_def)
  from store_names_not_validated
         [of homeStore "''email/work''" homeFS "Some zeroKey" "''abc''" None]
  show ?thesis
    using enc m h by (simp add: homeStore_def c work_paths Remove_calls)
qed

text \<open>
  C3 as stated fails: the name \<open>../escape\<close> is not rejected. \<open>Add\<close> succeeds and
  writes the envelope to \<open>/home/u/escape.pass\<close>, outside the root \<open>/home/u/.passh\<close>.
\<close>

theorem Add_accepts_escaping_name:
  "''..'' \<in> set (Split ''../escape'' CHR ''/'')
   \<and> fst (Add homeStore (Some zeroKey) None ''../escape'' ''abc'' homeFS) = None
   \<and> Lstat ''/home/u/escape.pass''
        (snd (Add homeStore (Some zeroKey) None ''../escape'' ''abc'' homeFS))
        = Inr (File ''YWJj:bW9jay1lZDI1NTE5LWtleQ=='')
   \<and> \<not> inside (rootDir homeStore) ''/home/u/escape.pass''"
proof -
  have "Lstat ''/home/u/escape.pass''
          (snd (Add homeStore (Some zeroKey) None ''../escape'' ''abc'' homeFS))
        = Inr (File ''YWJj:bW9jay1lZDI1NTE5LWtleQ=='')"
    unfolding Add_escape by (simp add: fs_eval)
  moreover have "fst (Add homeStore (Some zeroKey) None ''../escape'' ''abc'' homeFS) = None"
    unfolding Add_escape by simp
  moreover have "\<not> inside (rootDir homeStore) ''/home/u/escape.pass''"
    by (simp add: homeStore_def not_inside)
  ultimately show ?thesis by simp
qed

text \<open>
  C4. The claim asks that the fresh random key is used, so that two encryptions of the
  same plaintext differ. The code reads the key and never uses it: with two different
  keys, \<open>Encrypt\<close> returns the same envelope.
\<close>

theorem Encrypt_ignores_random_key:
  "zeroKey \<noteq> onesKey
   \<and> Encrypt owner (Some zeroKey) ''abc'' = Encrypt owner (Some onesKey) ''abc''"
  by (simp add: Encrypt_def zeroKey_def onesKey_def)

text \<open>
  C5. The claim asks that \<open>Decrypt\<close> fails when no signer matches a slot of the envelope.
  The code only checks that some private key is loaded: an encryptor whose only signer
  belongs to a key that is not a recipient decrypts the envelope.
\<close>

theorem Decrypt_with_unrelated_signer:
  "fst (Encrypt owner (Some zeroKey) ''abc'') = Inr ''YWJj:bW9jay1lZDI1NTE5LWtleQ==''
   \<and> map signerPublicKey (privateKeys stranger) = [otherKey]
   \<and> otherKey \<notin> set (publicKeys owner)
   \<and> fst (Decrypt stranger ''YWJj:bW9jay1lZDI1NTE5LWtleQ=='') = Inr ''abc''"
proof -
  have "fst (Decrypt stranger ''YWJj:bW9jay1lZDI1NTE5LWtleQ=='') = Inr ''abc''"
    by (simp add: Decrypt_def stranger_def DecodeString_examples del: DecodeString.simps)
  moreover have "map signerPublicKey (privateKeys stranger) = [otherKey]"
    "otherKey \<notin> set (publicKeys owner)"
    by (simp_all add: stranger_def owner_def otherKey_def mockKey_def)
  ultimately show ?thesis
    by (simp only: Encrypt_example fst_conv simp_thms)
qed

text \<open>
  C6 (as amended). \<open>Add\<close> writes the envelope straight to the final name
  \<open>Join rootDir (name + ".pass")\<close>; there is no temporary file and no rename. When
  encryption fails, \<open>Add\<close> calls nothing and changes nothing. Otherwise it calls
  \<open>MkdirAll\<close> on \<open>Dir (Join rootDir name)\<close>, 0700, and stops there if that fails; if
  not, it calls \<open>WriteFile\<close> on the final name with the envelope, 0600, and nothing
  else. Then one of three things holds: \<open>Add\<close> succeeds, all of the envelope was
  written, and the final name holds the whole envelope; or the write broke off after
  \<open>k\<close> bytes, \<open>Add\<close> fails, and the final name holds the first \<open>k\<close> bytes of the
  envelope; or the file could not be opened, \<open>Add\<close> fails, and the tree is as
  \<open>MkdirAll\<close> left it.
\<close>

theorem Add_writes_final_name:
  "(\<forall>err. fst (Encrypt (encryptor s) rnd password) = Inl err \<longrightarrow>
       Add s rnd wr name password fs = (Some (EncryptionFailed err), fs))
   \<and> (\<forall>envelope. fst (Encrypt (encryptor s) rnd password) = Inr envelope \<longrightarrow>
        (\<exists>err. fst (MkdirAll (Dir (Join (rootDir s) name)) 448 fs) = Some err
           \<and> Add s rnd wr name password fs
               = (Some (MkdirFailed err), snd (MkdirAll (Dir (Join (rootDir s) name)) 448 fs)))
        \<or> (fst (MkdirAll (Dir (Join (rootDir s) name)) 448 fs) = None
           \<and> calls (snd (Add s rnd wr name password fs))
               = calls fs @ [MkdirAllCall (Dir (Join (rootDir s) name)) 448,
                             WriteFileCall (Join (rootDir s) (name @ ''.pass'')) envelope 384]
           \<and> ((fst (Add s rnd wr name password fs) = None \<and> wr = None
                 \<and> Lstat (Join (rootDir s) (name @ ''.pass'')) (snd (Add s rnd wr name password fs))
                     = Inr (File envelope))
               \<or> (\<exists>k. fst (Add s rnd wr name password fs) = Some (WriteFailed EIO)
                     \<and> wr = Some k
                     \<and> Lstat (Join (rootDir s) (name @ ''.pass''))
                          (snd (Add s rnd wr name password fs))
                         = Inr (File (take k envelope)))
               \<or> (\<exists>err. err \<noteq> EIO
                     \<and> fst (Add s rnd wr name password fs) = Some (WriteFailed err)
                     \<and> tree (snd (Add s rnd wr name password fs))
                         = tree (snd (MkdirAll (Dir (Join (rootDir s) name)) 448 fs))))))"
proof (intro conjI allI impI)
  fix err
  assume "fst (Encrypt (encryptor s) rnd password) = Inl err"
  then show "Add s rnd wr name password fs = (Some (EncryptionFailed err), fs)"
    by (simp add: Add_def)
next
  fix envelope
  assume enc: "fst (Encrypt (encryptor s) rnd password) = Inr envelope"
  let ?dir = "Dir (Join (rootDir s) name)"
  let ?file = "Join (rootDir s) (name @ ''.pass'')"
  let ?m = "MkdirAll ?dir 448 fs"
  let ?w = "WriteFile ?file envelope 384 wr (snd ?m)"
  let ?a = "Add s rnd wr name password fs"
  show "(\<exists>err. fst ?m = Some err \<and> ?a = (Some (MkdirFailed err), snd ?m))
        \<or> (fst ?m = None
           \<and> calls (snd ?a) = calls fs @ [MkdirAllCall ?dir 448, WriteFileCall ?file envelope 384]
           \<and> ((fst ?a = None \<and> wr = None \<and> Lstat ?file (snd ?a) = Inr (File envelope))
               \<or> (\<exists>k. fst ?a = Some (WriteFailed EIO) \<and> wr = Some k
                     \<and> Lstat ?file (snd ?a) = Inr (File (take k envelope)))
               \<or> (\<exists>err. err \<noteq> EIO \<and> fst ?a = Some (WriteFailed err)
                     \<and> tree (snd ?a) = tree (snd ?m))))"
  proof (cases "fst ?m")
    case (Some err)
    then have "?a = (Some (MkdirFailed err), snd ?m)"
      using enc by (cases ?m) (simp add: Add_def)
    with Some show ?thesis by simp
  next
    case None
    then have a: "?a = (case fst ?w of Some err \<Rightarrow> Some (WriteFailed err) | None \<Rightarrow> None, snd ?w)"
      using enc by (cases ?m; cases ?w) (auto simp add: Add_def split: option.splits)
    have c: "calls (snd ?w) = calls fs @ [MkdirAllCall ?dir 448, WriteFileCall ?file envelope 384]"
      by (simp add: WriteFile_calls MkdirAll_calls)
    from WriteFile_cases [of ?file envelope 384 wr "snd ?m"]
    have "(fst ?a = None \<and> wr = None \<and> Lstat ?file (snd ?a) = Inr (File envelope))
          \<or> (\<exists>k. fst ?a = Some (WriteFailed EIO) \<and> wr = Some k
                \<and> Lstat ?file (snd ?a) = Inr (File (take k envelope)))
          \<or> (\<exists>err. err \<noteq> EIO \<and> fst ?a = Some (WriteFailed err) \<and> tree (snd ?a) = tree (snd ?m))"
    proof
      assume "\<exists>err. err \<noteq> EIO
        \<and> ?w = (Some err, logCall (WriteFileCall ?file envelope 384) (snd ?m))"
      then obtain err where "err \<noteq> EIO"
        and "?w = (Some err, logCall (WriteFileCall ?file envelope 384) (snd ?m))"
        by blast
      then have "err \<noteq> EIO \<and> fst ?a = Some (WriteFailed err) \<and> tree (snd ?a) = tree (snd ?m)"
        unfolding a by (simp add: logCall_def)
      then show ?thesis by blast
    next
      assume w: "fst ?w = writeError wr
        \<and> Lstat ?file (snd ?w) = Inr (File (written wr envelope))"
      show ?thesis
      proof (cases wr)
        case None
        then show ?thesis
          using w unfolding a by (simp add: writeError_def written_def)
      next
        case (Some k)
        then show ?thesis
          using w unfolding a by (simp add: writeError_def written_def)
      qed
    qed
    with None c show ?thesis
      unfolding a snd_conv by simp
  qed
qed

theorem Add_writes_final_name_witness:
  "fst (Encrypt (encryptor homeStore) (Some zeroKey) ''abc'') = Inr ''YWJj:bW9jay1lZDI1NTE5LWtleQ==''
   \<and> fst (Add homeStore (Some zeroKey) None ''email/work'' ''abc'' homeFS) = None
   \<and> Lstat ''/home/u/.passh/email/work.pass''
        (snd (Add homeStore (Some zeroKey) None ''email/work'' ''abc'' homeFS))
        = Inr (File ''YWJj:bW9jay1lZDI1NTE5LWtleQ=='')"
proof -
  have ok: "fst (Add homeStore (Some zeroKey) None ''email/work'' ''abc'' homeFS) = None"
    by (simp add: Add_work)
  have enc: "fst (Encrypt (encryptor homeStore) (Some zeroKey) ''abc'')
               = Inr ''YWJj:bW9jay1lZDI1NTE5LWtleQ==''"
    by (simp add: homeStore_def Encrypt_example)
  have p: "Join (rootDir homeStore) (''email/work'' @ ''.pass'') = ''/home/u/.passh/email/work.pass''"
    by (simp add: homeStore_def work_paths)
  from Add_writes_final_name
         [of homeStore "Some zeroKey" "''abc''" None "''email/work''" homeFS] enc ok
  have "Lstat (Join (rootDir homeStore) (''email/work'' @ ''.pass''))
          (snd (Add homeStore (Some zeroKey) None ''email/work'' ''abc'' homeFS))
          = Inr (File ''YWJj:bW9jay1lZDI1NTE5LWtleQ=='')"
    by auto
  with enc p ok show ?thesis by simp
qed

text \<open>
  C6 as stated fails: no temporary file is written and nothing is renamed. The whole
  effect of an \<open>Add\<close> on the store of the home directory is one \<open>MkdirAll\<close> and one
  \<open>WriteFile\<close> on the final name; and when that write breaks off after 4 bytes, the
  final name holds these 4 bytes of the envelope.
\<close>

theorem Add_makes_no_temporary_file:
  "Add homeStore (Some zeroKey) None ''email/work'' ''abc'' homeFS =
    (None,
     \<lparr>tree = Directory [(''home'', Directory [(''u'', Directory
               [(''.passh'', Directory [(''email'', Directory
                   [(''work.pass'', File ''YWJj:bW9jay1lZDI1NTE5LWtleQ=='')])])])])],
      cwd = [''home'', ''u''],
      calls = [MkdirAllCall ''/home/u/.passh/email'' 448,
               WriteFileCall ''/home/u/.passh/email/work.pass'' ''YWJj:bW9jay1lZDI1NTE5LWtleQ=='' 384]\<rparr>)
   \<and> Add homeStore (Some zeroKey) (Some 4) ''email/work'' ''abc'' homeFS =
    (Some (WriteFailed EIO),
     \<lparr>tree = Directory [(''home'', Directory [(''u'', Directory
               [(''.passh'', Directory [(''email'', Directory
                   [(''work.pass'', File ''YWJj'')])])])])],
      cwd = [''home'', ''u''],
      calls = [MkdirAllCall ''/home/u/.passh/email'' 448,
               WriteFileCall ''/home/u/.passh/email/work.pass'' ''YWJj:bW9jay1lZDI1NTE5LWtleQ=='' 384]\<rparr>)"
  by (simp only: Add_work Add_work_cut simp_thms)

text \<open>
  C7. With no registered public key, \<open>Encrypt\<close> fails with its "no public keys
  available for encryption" error, whatever the plaintext and the random source, and
  the encryptor is returned as it was.
\<close>

theorem Encrypt_without_recipients:
  "publicKeys e = [] \<Longrightarrow> Encrypt e rnd P = (Inl NoPublicKeys, e)"
  by (simp add: Encrypt_def)

theorem Encrypt_without_recipients_witness:
  "publicKeys unkeyed = []
   \<and> Encrypt unkeyed (Some zeroKey) ''S3cr3t!'' = (Inl NoPublicKeys, unkeyed)"
  using Encrypt_without_recipients [of unkeyed "Some zeroKey" "''S3cr3t!''"]
  by (simp add: unkeyed_def)

text \<open>
  C8 (as amended). When \<open>Lstat\<close> of the root of the store finds a directory, in a
  well-formed tree, \<open>List\<close> returns the entry names (relative path, \<open>.pass\<close> stripped) of exactly the
  regular files below the root whose file name ends in \<open>.pass\<close>: a path is listed if and
  only if it leads to a regular file with that suffix, so never to a directory; the names
  are pairwise different; and they come in the order of the walk, which is the strictly
  ascending order of the entry files' paths compared name by name (extension included).
\<close>

theorem List_walk_order:
  assumes "Lstat (rootDir s) fs = Inr (Directory entries)" and "wfNode (Directory entries)"
  shows "List s fs = Inr (map entryName (passFiles (Directory entries)))
     \<and> (\<forall>p. p \<in> set (passFiles (Directory entries))
            \<longleftrightarrow> (\<exists>content. lookupNode (Directory entries) p = Inr (File content))
                 \<and> HasSuffix (last p) ''.pass'')
     \<and> distinct (map entryName (passFiles (Directory entries)))
     \<and> sorted_wrt (<) (passFiles (Directory entries))"
proof (intro conjI allI)
  show "List s fs = Inr (map entryName (passFiles (Directory entries)))"
    using assms by (rule List_listed)
  show "distinct (map entryName (passFiles (Directory entries)))"
    using assms(2) by (rule entryNames_distinct)
  show "sorted_wrt (<) (passFiles (Directory entries))"
    using assms(2) by (rule passFiles_sorted)
  fix p
  have "p \<noteq> []" if "lookupNode (Directory entries) p = Inr (File content)" for content
    using that by auto
  then show "p \<in> set (passFiles (Directory entries))
            \<longleftrightarrow> (\<exists>content. lookupNode (Directory entries) p = Inr (File content))
                 \<and> HasSuffix (last p) ''.pass''"
    using passFiles_lookup [OF assms(2), of p] by blast
qed

theorem List_walk_order_witness:
  "Lstat (rootDir homeStore) nestedFS = Inr nestedStore \<and> wfNode nestedStore
   \<and> List homeStore nestedFS = Inr (map entryName (passFiles nestedStore))
   \<and> sorted_wrt (<) (passFiles nestedStore)"
  using List_walk_order [of homeStore nestedFS] nested_Lstat nested_wf
  by (simp add: nestedStore_def)

text \<open>
  C8 as stated fails in the order: for the entries \<open>a\<close> and \<open>a/b\<close> the directory \<open>a\<close> is
  walked before the file \<open>a.pass\<close>, so \<open>List\<close> returns \<open>a/b\<close> before \<open>a\<close>, which is not
  the lexicographic order of the names.
\<close>

theorem List_not_in_name_order:
  "List homeStore nestedFS = Inr [''a/b'', ''a''] \<and> \<not> sorted [''a/b'', ''a'']"
proof -
  have "List homeStore nestedFS = Inr (map entryName (passFiles nestedStore))"
    using nested_Lstat nested_wf unfolding nestedStore_def by (rule List_listed)
  then show ?thesis
    by (simp add: nested_passFiles nested_names)
qed

text \<open>
  C9. For every plaintext \<open>P\<close> and every encryptor with at least one public key, the
  first colon-separated field of the envelope is the standard base64 encoding of \<open>P\<close>,
  and base64 decoding of that field alone returns \<open>P\<close>: no private key is involved.
\<close>

theorem Encrypt_first_field_base64:
  assumes "publicKeys e \<noteq> []"
  shows "\<exists>envelope fields. fst (Encrypt e (Some randomKey) P) = Inr envelope
           \<and> Split envelope CHR '':'' = EncodeToString P # fields
           \<and> DecodeString (EncodeToString P) = Inr P"
  using Encrypt_fields [OF assms, of randomKey P] DecodeString_EncodeToString [of P]
  by auto

theorem Encrypt_first_field_base64_witness:
  "\<exists>envelope fields. fst (Encrypt owner (Some zeroKey) ''S3cr3t!'') = Inr envelope
           \<and> Split envelope CHR '':'' = EncodeToString ''S3cr3t!'' # fields
           \<and> DecodeString (EncodeToString ''S3cr3t!'') = Inr ''S3cr3t!''"
  using Encrypt_first_field_base64 [of owner zeroKey "''S3cr3t!''"]
  by (simp add: owner_def)

text \<open>
  C10. When private keys are available, every input without a \<open>:\<close> makes \<open>Decrypt\<close>
  fail with "invalid encrypted data format", valid base64 or not. Two inputs that both
  have at least two colon-separated fields and agree on the first field give the same
  result.
\<close>

theorem Decrypt_format:
  "(privateKeys e \<noteq> [] \<and> CHR '':'' \<notin> set s \<longrightarrow> fst (Decrypt e s) = Inl InvalidFormat)
   \<and> (\<forall>field rest rest'. Split s CHR '':'' = field # rest \<and> rest \<noteq> []
          \<and> Split s' CHR '':'' = field # rest' \<and> rest' \<noteq> []
        \<longrightarrow> Decrypt e s = Decrypt e s')"
proof (intro conjI impI allI)
  assume "privateKeys e \<noteq> [] \<and> CHR '':'' \<notin> set s"
  then show "fst (Decrypt e s) = Inl InvalidFormat"
    by (simp add: Decrypt_def Split_no_sep)
next
  fix field rest rest'
  assume "Split s CHR '':'' = field # rest \<and> rest \<noteq> []
          \<and> Split s' CHR '':'' = field # rest' \<and> rest' \<noteq> []"
  then show "Decrypt e s = Decrypt e s'"
    by (cases rest; cases rest') (simp_all add: Decrypt_def)
qed

theorem Decrypt_format_witness:
  "fst (Decrypt owner ''YWJj'') = Inl InvalidFormat
   \<and> DecodeString ''YWJj'' = Inr ''abc''
   \<and> Decrypt owner ''YWJj:eA=='' = Decrypt owner ''YWJj:eQ==:eg==''"
proof -
  have 1: "privateKeys owner \<noteq> [] \<and> CHR '':'' \<notin> set ''YWJj''"
    by (simp add: owner_def)
  have 2: "Split ''YWJj:eA=='' CHR '':'' = ''YWJj'' # [''eA==''] \<and> [''eA==''] \<noteq> []
      \<and> Split ''YWJj:eQ==:eg=='' CHR '':'' = ''YWJj'' # [''eQ=='', ''eg==''] \<and> [''eQ=='', ''eg==''] \<noteq> []"
    by simp
  from Decrypt_format [of owner "''YWJj''" "''YWJj:eA==''"] 1
  have a: "fst (Decrypt owner ''YWJj'') = Inl InvalidFormat" by blast
  from Decrypt_format [of owner "''YWJj:eA==''" "''YWJj:eQ==:eg==''"] 2
  have b: "Decrypt owner ''YWJj:eA=='' = Decrypt owner ''YWJj:eQ==:eg==''" by blast
  from a b DecodeString_examples(2) show ?thesis by simp
qed

end
